theory Spec2Isabelle
  imports Complex_Main "HOL-Library.Product_Lexorder"
begin

section \<open>Exceptions\<close>

text \<open>
  The Python exceptions the modelled code can meet (\<open>FetchError\<close> stands for
  whatever the sheet client raises). A computation that may raise returns
  \<open>py_error + 'a\<close>, with \<open>Inl\<close> for the raised exception.
\<close>

datatype py_error = ValueError | OverflowError | KeyError | TypeError | AttributeError
  | JSONDecodeError | FetchError

section \<open>Calendar dates (Python's \<open>datetime.date\<close>)\<close>

text \<open>
  \<open>datetime.date\<close> stores year, month and day; its arithmetic goes through the
  proleptic Gregorian ordinal (day 1 is 0001-01-01). The functions below follow the
  standard library's pure-Python implementation (\<open>_ymd2ord\<close>, \<open>_ord2ymd\<close>,
  \<open>_check_date_fields\<close>); Python's \<open>//\<close> and \<open>%\<close> round towards minus
  infinity, as \<open>div\<close> and \<open>mod\<close> on \<open>int\<close> do.
\<close>

record date =
  year :: int
  month :: int
  day :: int

definition MINYEAR :: int where "MINYEAR = 1"
definition MAXYEAR :: int where "MAXYEAR = 9999"
definition MAXORDINAL :: int where "MAXORDINAL = 3652059"

definition is_leap :: "int \<Rightarrow> bool" where
  "is_leap y = (y mod 4 = 0 \<and> (y mod 100 \<noteq> 0 \<or> y mod 400 = 0))"

definition days_before_year :: "int \<Rightarrow> int" where
  "days_before_year yr = (let y = yr - 1 in y * 365 + y div 4 - y div 100 + y div 400)"

text \<open>Both tables are only read at a month between 1 and 12 (index 0 is a placeholder).\<close>

definition DAYS_IN_MONTH :: "int list" where
  "DAYS_IN_MONTH = [-1, 31, 28, 31, 30, 31, 30, 31, 31, 30, 31, 30, 31]"

definition DAYS_BEFORE_MONTH :: "int list" where
  "DAYS_BEFORE_MONTH = [-1, 0, 31, 59, 90, 120, 151, 181, 212, 243, 273, 304, 334]"

definition days_in_month :: "int \<Rightarrow> int \<Rightarrow> int" where
  "days_in_month y m = (if m = 2 \<and> is_leap y then 29 else DAYS_IN_MONTH ! nat m)"

definition days_before_month :: "int \<Rightarrow> int \<Rightarrow> int" where
  "days_before_month y m = DAYS_BEFORE_MONTH ! nat m + (if m > 2 \<and> is_leap y then 1 else 0)"

definition ymd2ord :: "int \<Rightarrow> int \<Rightarrow> int \<Rightarrow> int" where
  "ymd2ord y m d = days_before_year y + days_before_month y m + d"

definition ord2ymd :: "int \<Rightarrow> int \<times> int \<times> int" where
  "ord2ymd ordinal =
     (let n = ordinal - 1;
          n400 = n div 146097; n = n mod 146097;
          y = n400 * 400 + 1;
          n100 = n div 36524; n = n mod 36524;
          n4 = n div 1461; n = n mod 1461;
          n1 = n div 365; n = n mod 365;
          y = y + n100 * 100 + n4 * 4 + n1
      in if n1 = 4 \<or> n100 = 4 then (y - 1, 12, 31)
         else
           let leapyear = (n1 = 3 \<and> (n4 \<noteq> 24 \<or> n100 = 3));
               m = (n + 50) div 32;
               preceding = DAYS_BEFORE_MONTH ! nat m + (if m > 2 \<and> leapyear then 1 else 0)
           in if preceding > n
              then let m' = m - 1;
                       preceding' = preceding
                         - (DAYS_IN_MONTH ! nat m' + (if m' = 2 \<and> leapyear then 1 else 0))
                   in (y, m', n - preceding' + 1)
              else (y, m, n - preceding + 1))"

text \<open>
  \<open>datetime(y, m, d).date()\<close>: the constructor checks the fields and raises
  \<open>ValueError\<close> outside the calendar.
\<close>

definition date_of :: "int \<Rightarrow> int \<Rightarrow> int \<Rightarrow> py_error + date" where
  "date_of y m d =
     (if \<not> (MINYEAR \<le> y \<and> y \<le> MAXYEAR) then Inl ValueError
      else if \<not> (1 \<le> m \<and> m \<le> 12) then Inl ValueError
      else if \<not> (1 \<le> d \<and> d \<le> days_in_month y m) then Inl ValueError
      else Inr \<lparr>year = y, month = m, day = d\<rparr>)"

definition toordinal :: "date \<Rightarrow> int" where
  "toordinal dt = ymd2ord (year dt) (month dt) (day dt)"

definition fromordinal :: "int \<Rightarrow> date" where
  "fromordinal n = (case ord2ymd n of (y, m, d) \<Rightarrow> \<lparr>year = y, month = m, day = d\<rparr>)"

text \<open>
  \<open>dt + timedelta(days=k)\<close> (and \<open>dt - timedelta(days=k)\<close> with \<open>-k\<close>): the sum of
  the ordinals, \<open>OverflowError\<close> when it leaves 0001-01-01 .. 9999-12-31.
\<close>

definition date_add_days :: "date \<Rightarrow> int \<Rightarrow> py_error + date" where
  "date_add_days dt k =
     (let ordinal = toordinal dt + k
      in if 0 < ordinal \<and> ordinal \<le> MAXORDINAL then Inr (fromordinal ordinal)
         else Inl OverflowError)"

text \<open>\<open>(a - b).days\<close> for two dates.\<close>

definition date_diff_days :: "date \<Rightarrow> date \<Rightarrow> int" where
  "date_diff_days a b = toordinal a - toordinal b"

text \<open>\<open>weekday()\<close>: Monday is 0, Sunday is 6.\<close>

definition weekday :: "date \<Rightarrow> int" where
  "weekday dt = (toordinal dt + 6) mod 7"

text \<open>Dates compare as the tuples (year, month, day); \<open>sorted\<close> uses this order.\<close>

definition date_key :: "date \<Rightarrow> int \<times> int \<times> int" where
  "date_key dt = (year dt, month dt, day dt)"

section \<open>Holiday calculator (holidays.py)\<close>

text \<open>
  The two class-level dictionaries \<open>_holiday_cache\<close> and \<open>_major_holiday_cache\<close>,
  keyed by year, are the only state of the class. Every function that reads or fills
  them takes the state and returns it.
\<close>

record holiday_state =
  holiday_cache :: "int \<rightharpoonup> date list"
  major_holiday_cache :: "int \<rightharpoonup> date list"

definition initial_holiday_state :: holiday_state where
  "initial_holiday_state = \<lparr>holiday_cache = Map.empty, major_holiday_cache = Map.empty\<rparr>"

text \<open>The body of the \<open>try\<close> block of \<open>_calculate_easter\<close>.\<close>

definition computus :: "int \<Rightarrow> py_error + date" where
  "computus yr =
     (let a = yr mod 19;
          b = yr div 100;
          c = yr mod 100;
          d = b div 4;
          e = b mod 4;
          f = (b + 8) div 25;
          g = (b - f + 1) div 3;
          h = (19 * a + b - d - g + 15) mod 30;
          i = c div 4;
          k = c mod 4;
          l = (32 + 2 * e + 2 * i - h - k) mod 7;
          m = (a + 11 * h + 22 * l) div 451;
          mon = (h + l - 7 * m + 114) div 31;
          dy = ((h + l - 7 * m + 114) mod 31) + 1
      in date_of yr mon dy)"

text \<open>
  \<open>_calculate_easter\<close>: on any exception the handler builds the fallback April 15,
  which itself raises for a year outside 1..9999.
\<close>

definition calculate_easter :: "int \<Rightarrow> py_error + date" where
  "calculate_easter yr =
     (case computus yr of
        Inr easter \<Rightarrow> Inr easter
      | Inl _ \<Rightarrow> date_of yr 4 15)"

text \<open>\<open>_get_holy_week_dates\<close>: any exception gives the empty list.\<close>

definition holy_week_try :: "int \<Rightarrow> py_error + date list" where
  "holy_week_try yr =
     (case calculate_easter yr of
        Inl e \<Rightarrow> Inl e
      | Inr easter_sunday \<Rightarrow>
          (case date_add_days easter_sunday (- 3) of
             Inl e \<Rightarrow> Inl e
           | Inr maundy_thursday \<Rightarrow>
               (case date_add_days easter_sunday (- 2) of
                  Inl e \<Rightarrow> Inl e
                | Inr good_friday \<Rightarrow>
                    (case date_add_days easter_sunday (- 1) of
                       Inl e \<Rightarrow> Inl e
                     | Inr black_saturday \<Rightarrow>
                         Inr [maundy_thursday, good_friday, black_saturday]))))"

definition get_holy_week_dates :: "int \<Rightarrow> date list" where
  "get_holy_week_dates yr = (case holy_week_try yr of Inr hw \<Rightarrow> hw | Inl _ \<Rightarrow> [])"

text \<open>
  A list literal of date constructions raises as soon as one of them does:
  \<open>collect\<close> gives the list of the values, or the first exception.
\<close>

fun collect :: "(py_error + 'a) list \<Rightarrow> py_error + 'a list" where
  "collect [] = Inr []"
| "collect (Inl e # _) = Inl e"
| "collect (Inr x # rest) = (case collect rest of Inl e \<Rightarrow> Inl e | Inr xs \<Rightarrow> Inr (x # xs))"

text \<open>\<open>sorted(list(set(holidays)))\<close>: the distinct dates in ascending order.\<close>

definition sorted_set :: "date list \<Rightarrow> date list" where
  "sorted_set ds = sort_key date_key (remdups ds)"

text \<open>The \<open>try\<close> block of \<open>get_ph_holidays\<close>, up to the value that is cached and returned.\<close>

definition ph_holidays_try :: "int \<Rightarrow> py_error + date list" where
  "ph_holidays_try yr =
     (case collect
        [date_of yr 1 1, date_of yr 4 9, date_of yr 5 1, date_of yr 6 12,
         date_of yr 8 21, date_of yr 8 25, date_of yr 11 1, date_of yr 11 30,
         date_of yr 12 25, date_of yr 12 30, date_of yr 12 31] of
        Inl e \<Rightarrow> Inl e
      | Inr holidays \<Rightarrow> Inr (sorted_set (holidays @ get_holy_week_dates yr)))"

definition get_ph_holidays :: "holiday_state \<Rightarrow> int \<Rightarrow> date list \<times> holiday_state" where
  "get_ph_holidays s yr =
     (case holiday_cache s yr of
        Some cached \<Rightarrow> (cached, s)
      | None \<Rightarrow>
          (case ph_holidays_try yr of
             Inr holidays \<Rightarrow> (holidays, s\<lparr>holiday_cache := (holiday_cache s)(yr \<mapsto> holidays)\<rparr>)
           | Inl _ \<Rightarrow> ([], s)))"

text \<open>The \<open>try\<close> block of \<open>get_major_ph_holidays\<close>.\<close>

definition major_ph_holidays_try :: "int \<Rightarrow> py_error + date list" where
  "major_ph_holidays_try yr =
     (case collect [date_of yr 1 1, date_of yr 12 25] of
        Inl e \<Rightarrow> Inl e
      | Inr holidays \<Rightarrow>
          (let holy_week = get_holy_week_dates yr
           in Inr (sorted_set
                (if length holy_week \<ge> 2 then holidays @ [holy_week ! 0, holy_week ! 1]
                 else holidays))))"

definition get_major_ph_holidays :: "holiday_state \<Rightarrow> int \<Rightarrow> date list \<times> holiday_state" where
  "get_major_ph_holidays s yr =
     (case major_holiday_cache s yr of
        Some cached \<Rightarrow> (cached, s)
      | None \<Rightarrow>
          (case major_ph_holidays_try yr of
             Inr holidays \<Rightarrow>
               (holidays, s\<lparr>major_holiday_cache := (major_holiday_cache s)(yr \<mapsto> holidays)\<rparr>)
           | Inl _ \<Rightarrow> ([], s)))"

definition is_holiday :: "holiday_state \<Rightarrow> date \<Rightarrow> bool \<Rightarrow> bool \<times> holiday_state" where
  "is_holiday s dt major_only =
     (case (if major_only then get_major_ph_holidays s (year dt)
            else get_ph_holidays s (year dt)) of
        (holidays, s') \<Rightarrow> (dt \<in> set holidays, s'))"

definition is_weekend :: "date \<Rightarrow> bool" where
  "is_weekend dt = (weekday dt \<in> set [5, 6])"

definition is_sunday :: "date \<Rightarrow> bool" where
  "is_sunday dt = (weekday dt = 6)"

definition clear_cache :: "holiday_state \<Rightarrow> holiday_state" where
  "clear_cache s = s\<lparr>holiday_cache := Map.empty, major_holiday_cache := Map.empty\<rparr>"

section \<open>Delivery calculator (calculator.py)\<close>

definition MAX_CALCULATION_ITERATIONS :: int where
  "MAX_CALCULATION_ITERATIONS = 100"

text \<open>
  \<open>should_skip_date\<close>. The three branches are kept as written (the last repeats the
  first). Nothing in the \<open>try\<close> block raises for a date value: the holiday functions
  catch their own exceptions, so the handler that returns \<open>False\<close> is never entered.
\<close>

definition should_skip_date :: "holiday_state \<Rightarrow> string \<Rightarrow> date \<Rightarrow> bool \<times> holiday_state" where
  "should_skip_date s courier_name dt =
     (let sunday = is_sunday dt
      in if courier_name = ''LBC'' then
           (case is_holiday s dt False of (hol, s') \<Rightarrow> (sunday \<or> hol, s'))
         else if courier_name = ''J&T'' then
           (case is_holiday s dt True of (major, s') \<Rightarrow> (major, s'))
         else
           (case is_holiday s dt False of (hol, s') \<Rightarrow> (sunday \<or> hol, s')))"

text \<open>
  The \<open>while\<close> loop of \<open>calculate_delivery_date\<close>. Its state is
  (\<open>days_added\<close>, \<open>current_date\<close>, \<open>iterations\<close>) and the holiday caches;
  \<open>current_date += timedelta(days=1)\<close> may raise \<open>OverflowError\<close>, which leaves
  the loop.
\<close>

function delivery_loop ::
  "string \<Rightarrow> int \<Rightarrow> int \<Rightarrow> holiday_state \<Rightarrow> int \<Rightarrow> date \<Rightarrow> int
     \<Rightarrow> (py_error + int \<times> date \<times> int) \<times> holiday_state" where
  "delivery_loop courier_name base_days max_iterations s days_added current_date iterations =
     (if days_added < base_days \<and> iterations < max_iterations then
        (case date_add_days current_date 1 of
           Inl e \<Rightarrow> (Inl e, s)
         | Inr current_date' \<Rightarrow>
             (case should_skip_date s courier_name current_date' of
                (skip, s') \<Rightarrow>
                  delivery_loop courier_name base_days max_iterations s'
                    (if \<not> skip then days_added + 1 else days_added)
                    current_date' (iterations + 1)))
      else (Inr (days_added, current_date, iterations), s))"
  by pat_completeness auto
termination
  by (relation "measure (\<lambda>(c, b, m, s, a, d, i). nat (m - i))") auto

text \<open>
  \<open>calculate_delivery_date\<close>: \<open>None\<close> for a non-positive \<open>base_days\<close>, when
  \<open>iterations >= max_iterations\<close> after the loop, and on any exception.
\<close>

definition calculate_delivery_date ::
  "holiday_state \<Rightarrow> date \<Rightarrow> int \<Rightarrow> string \<Rightarrow> int option \<Rightarrow> date option \<times> holiday_state" where
  "calculate_delivery_date s start_date base_days courier_name max_iterations_arg =
     (let max_iterations =
            (case max_iterations_arg of None \<Rightarrow> MAX_CALCULATION_ITERATIONS | Some m \<Rightarrow> m)
      in if base_days \<le> 0 then (None, s)
         else
           (case delivery_loop courier_name base_days max_iterations s 0 start_date 0 of
              (Inl e, s') \<Rightarrow> (None, s')
            | (Inr (days_added, current_date, iterations), s') \<Rightarrow>
                if iterations \<ge> max_iterations then (None, s')
                else (Some current_date, s')))"

section \<open>Strings (Python's \<open>str\<close>)\<close>



definition ascii_digits :: string where
  "ascii_digits = ''0123456789''"

text \<open>\<open>str.isspace\<close> on one ASCII character: tab to carriage return, 0x1c to 0x1f, space.\<close>

definition is_space :: "char \<Rightarrow> bool" where
  "is_space ch = (ch \<in> set [CHR 0x09, CHR 0x0A, CHR 0x0B, CHR 0x0C, CHR 0x0D,
                               CHR 0x1C, CHR 0x1D, CHR 0x1E, CHR 0x1F, CHR 0x20])"

definition is_digit :: "char \<Rightarrow> bool" where
  "is_digit ch = (ch \<in> set ascii_digits)"


definition digit_value :: "char \<Rightarrow> int" where
  "digit_value ch = (case map_of (zip ascii_digits [0, 1, 2, 3, 4, 5, 6, 7, 8, 9]) ch of
                       Some v \<Rightarrow> v | None \<Rightarrow> 0)"

definition strip :: "string \<Rightarrow> string" where
  "strip s = rev (dropWhile is_space (rev (dropWhile is_space s)))"





text \<open>\<open>s.split(sep)\<close> for a one-character separator: never the empty list.\<close>

fun split_on :: "char \<Rightarrow> string \<Rightarrow> string list" where
  "split_on sep [] = [[]]"
| "split_on sep (ch # rest) =
     (if ch = sep then [] # split_on sep rest
      else (case split_on sep rest of
              part # parts \<Rightarrow> (ch # part) # parts
            | [] \<Rightarrow> [[ch]]))"


text \<open>
  \<open>int(s)\<close> for a string: surrounding whitespace is dropped, then an optional sign and
  decimal digits, with single underscores allowed between digits; anything else raises
  \<open>ValueError\<close>.
\<close>

fun parse_digits :: "string \<Rightarrow> int \<Rightarrow> py_error + int" where
  "parse_digits [] acc = Inr acc"
| "parse_digits (ch # rest) acc =
     (if is_digit ch then parse_digits rest (10 * acc + digit_value ch)
      else if ch = CHR ''_'' then
        (case rest of
           [] \<Rightarrow> Inl ValueError
         | d # _ \<Rightarrow> if is_digit d then parse_digits rest acc else Inl ValueError)
      else Inl ValueError)"

definition parse_unsigned :: "string \<Rightarrow> py_error + int" where
  "parse_unsigned body =
     (case body of
        [] \<Rightarrow> Inl ValueError
      | ch # _ \<Rightarrow> if is_digit ch then parse_digits body 0 else Inl ValueError)"

definition py_int :: "string \<Rightarrow> py_error + int" where
  "py_int s =
     (case strip s of
        [] \<Rightarrow> Inl ValueError
      | ch # rest \<Rightarrow>
          if ch = CHR ''-'' then
            (case parse_unsigned rest of Inl e \<Rightarrow> Inl e | Inr v \<Rightarrow> Inr (- v))
          else if ch = CHR ''+'' then parse_unsigned rest
          else parse_unsigned (ch # rest))"

section \<open>Date and time (Python's \<open>datetime.datetime\<close>)\<close>

text \<open>
  A \<open>datetime\<close> carries its date, its time fields and its zone (\<open>tzinfo\<close>, here the
  zone's name, \<open>None\<close> for a naive value).
\<close>

record datetime =
  date_part :: date
  hour :: int
  minute :: int
  second :: int
  microsecond :: int
  tzinfo :: "string option"




section \<open>Delivery calculator: cutoff, base days and confidence (calculator.py)\<close>

text \<open>
  \<open>cutoff_hour, cutoff_min = map(int, cutoff_time.split(':'))\<close>: the unpacking raises
  \<open>ValueError\<close> unless there are exactly two parts, and \<open>int\<close> raises it for a
  part that is not an integer literal.
\<close>

definition parse_hour_minute :: "string \<Rightarrow> py_error + int \<times> int" where
  "parse_hour_minute s =
     (case map py_int (split_on CHR '':'' s) of
        [Inr h, Inr m] \<Rightarrow> Inr (h, m)
      | _ \<Rightarrow> Inl ValueError)"



text \<open>
  Values read from the configuration: what \<open>json.loads\<close> and the sheet parser can
  produce. A dictionary keeps its items in insertion order, with distinct keys.
\<close>

datatype pyval = PNone | PBool bool | PInt int | PFloat | PStr string
  | PList "pyval list" | PDict "(string \<times> pyval) list"

type_synonym pydict = "(string \<times> pyval) list"


text \<open>
  \<open>get_delivery_confidence\<close>. \<open>total_calendar_days / base_days\<close> is the double
  nearest to the exact quotient (ties to even), and \<open>OverflowError\<close> when that is
  beyond the largest double, that is from \<open>2^1024 - 2^970\<close> on in absolute value; the
  handler then returns \<open>"medium"\<close>. Both thresholds are doubles, so the rounded
  quotient is at most 1.5 exactly when the quotient is at most the midpoint
  \<open>1.5 + 2^-53\<close> to the next double (a tie rounds to the even 1.5), and at most 2.0
  exactly when the quotient is at most \<open>2 + 2^-52\<close>.
\<close>

definition double_overflow :: rat where
  "double_overflow = 2 ^ 1024 - 2 ^ 970"

definition rounds_to_at_most_1_5 :: "rat \<Rightarrow> bool" where
  "rounds_to_at_most_1_5 q = (q \<le> 3 / 2 + 1 / 2 ^ 53)"

definition rounds_to_at_most_2_0 :: "rat \<Rightarrow> bool" where
  "rounds_to_at_most_2_0 q = (q \<le> 2 + 1 / 2 ^ 52)"

definition get_delivery_confidence :: "int \<Rightarrow> int \<Rightarrow> string \<Rightarrow> string" where
  "get_delivery_confidence base_days total_calendar_days courier_name =
     (if base_days > 0 then
        (let q = of_int total_calendar_days / of_int base_days
         in if \<bar>q\<bar> \<ge> double_overflow then ''medium''
            else if rounds_to_at_most_1_5 q then ''high''
            else if rounds_to_at_most_2_0 q then ''medium''
            else ''low'')
      else ''high'')"

section \<open>Configuration source (sheetCredential.py)\<close>

text \<open>
  What one call meets outside the program: the clock (\<open>time.time()\<close>), the outcome of
  \<open>get_sheet_data()\<close> (the rows of the sheet, or an exception), \<open>json.loads\<close>, the
  zone names \<open>pytz\<close> knows, and the wall clock of each zone (\<open>datetime.now(tz)\<close>,
  read at the name \<open>''UTC''\<close> for the fallback). A clock reading is taken as an
  exact number of seconds: the rounding of the float subtraction in the age test is not
  modelled.
\<close>

record environment =
  time_now :: rat
  sheet_data :: "py_error + string list list"
  json_loads :: "string \<Rightarrow> py_error + pyval"
  known_timezone :: "string \<Rightarrow> bool"
  now_in_zone :: "string \<Rightarrow> datetime"

text \<open>\<open>config[key] = value\<close>: an existing key keeps its place.\<close>

fun dict_set :: "pydict \<Rightarrow> string \<Rightarrow> pyval \<Rightarrow> pydict" where
  "dict_set [] k v = [(k, v)]"
| "dict_set ((k', v') # rest) k v =
     (if k' = k then (k, v) # rest else (k', v') # dict_set rest k v)"

definition empty_config :: pydict where
  "empty_config =
     [(''store_name'', PStr ''''), (''timezone'', PStr ''''), (''cutoff_time'', PStr ''''),
      (''working_days'', PList []), (''couriers'', PDict [])]"

text \<open>The loop of \<open>parse_to_config\<close> over the rows; \<open>json.loads\<close> may raise.\<close>

fun parse_rows :: "(string \<Rightarrow> py_error + pyval) \<Rightarrow> string list list \<Rightarrow> pydict \<Rightarrow> py_error + pydict" where
  "parse_rows loads [] config = Inr config"
| "parse_rows loads (row # rows) config =
     (if length row < 2 then parse_rows loads rows config
      else
        (let key = strip (row ! 0); val = strip (row ! 1)
         in if key = ''store_name'' then
              parse_rows loads rows (dict_set config ''store_name'' (PStr val))
            else if key = ''timezone'' then
              parse_rows loads rows (dict_set config ''timezone'' (PStr val))
            else if key = ''cutoff_time'' then
              parse_rows loads rows (dict_set config ''cutoff_time'' (PStr val))
            else if key = ''working_days'' then
              parse_rows loads rows
                (dict_set config ''working_days'' (PList (map (\<lambda>d. PStr (strip d)) (split_on CHR '','' val))))
            else if key = ''couriers'' then
              (case loads val of
                 Inl e \<Rightarrow> Inl e
               | Inr couriers \<Rightarrow> parse_rows loads rows (dict_set config ''couriers'' couriers))
            else parse_rows loads rows config))"

definition parse_to_config :: "(string \<Rightarrow> py_error + pyval) \<Rightarrow> string list list \<Rightarrow> py_error + pydict" where
  "parse_to_config loads values_list = parse_rows loads values_list empty_config"

section \<open>Configuration cache (config.py)\<close>

text \<open>The class attributes of \<open>ConfigCache\<close> (the lock apart).\<close>

record config_cache =
  cache :: "pydict option"
  cache_time :: "rat option"
  cache_ttl :: int
  fetch_in_progress :: bool

definition initial_config_cache :: config_cache where
  "initial_config_cache =
     \<lparr>cache = None, cache_time = None, cache_ttl = 600, fetch_in_progress = False\<rparr>"

text \<open>
  The \<open>try\<close> block on the cutoff time in \<open>_validate_config\<close>: any exception makes
  the validation fail.
\<close>

definition cutoff_time_valid :: "pyval \<Rightarrow> bool" where
  "cutoff_time_valid v =
     (case v of
        PStr cutoff_time \<Rightarrow>
          if CHR '':'' \<notin> set cutoff_time then False
          else (case parse_hour_minute cutoff_time of
                  Inl _ \<Rightarrow> False
                | Inr (hours, minutes) \<Rightarrow>
                    0 \<le> hours \<and> hours < 24 \<and> 0 \<le> minutes \<and> minutes < 60)
      | _ \<Rightarrow> False)"

text \<open>\<open>isinstance(days, int) and days > 0\<close>, the negation of the test in the loop.\<close>

definition positive_int :: "pyval \<Rightarrow> bool" where
  "positive_int v = (case v of PInt days \<Rightarrow> 0 < days | PBool b \<Rightarrow> b | _ \<Rightarrow> False)"

definition regions_valid :: "pyval \<Rightarrow> bool" where
  "regions_valid v =
     (case v of
        PDict regions \<Rightarrow> list_all (\<lambda>(region_name, days). positive_int days) regions
      | _ \<Rightarrow> False)"

definition validate_config :: "(string \<Rightarrow> bool) \<Rightarrow> pydict \<Rightarrow> bool" where
  "validate_config known_tz config =
     (if \<not> list_all (\<lambda>key. map_of config key \<noteq> None) [''couriers'', ''cutoff_time'', ''timezone'']
      then False
      else
        (case map_of config ''couriers'' of
           Some (PDict couriers) \<Rightarrow>
             if length couriers = 0 then False
             else if \<not> (case map_of config ''cutoff_time'' of
                          Some v \<Rightarrow> cutoff_time_valid v | None \<Rightarrow> False) then False
             else if \<not> (case map_of config ''timezone'' of
                          Some (PStr tz) \<Rightarrow> known_tz tz | _ \<Rightarrow> False) then False
             else list_all (\<lambda>(courier_name, regions). regions_valid regions) couriers
         | _ \<Rightarrow> False))"

text \<open>
  The first critical section of \<open>get_config\<close>: \<open>Some r\<close> when the call returns
  \<open>r\<close> at once (the fresh snapshot, or the current one while another call fetches),
  \<open>None\<close> when this call sets the flag and goes on to fetch.
\<close>

definition get_config_locked ::
  "rat \<Rightarrow> config_cache \<Rightarrow> bool \<Rightarrow> pydict option option \<times> config_cache" where
  "get_config_locked current_time s force_refresh =
     (if \<not> force_refresh \<and> cache s \<noteq> None \<and>
         (case cache_time s of
            None \<Rightarrow> False
          | Some t \<Rightarrow> current_time - t < of_int (cache_ttl s))
      then (Some (cache s), s)
      else if fetch_in_progress s then (Some (cache s), s)
      else (None, s\<lparr>fetch_in_progress := True\<rparr>))"

text \<open>
  The \<open>except\<close> handler of \<open>get_config\<close>: the flag is cleared, the stale snapshot is
  returned if there is one, and the exception is raised again otherwise.
\<close>

definition on_exception ::
  "py_error \<Rightarrow> config_cache \<Rightarrow> (py_error + pydict option) \<times> config_cache" where
  "on_exception e s =
     (let s' = s\<lparr>fetch_in_progress := False\<rparr>
      in case cache s' of
           Some stale \<Rightarrow> (Inr (Some stale), s')
         | None \<Rightarrow> (Inl e, s'))"

text \<open>
  An empty sheet and a failed validation share one path: the flag is cleared, the
  stale snapshot is returned if there is one, and otherwise \<open>ValueError\<close> is raised
  inside the \<open>try\<close> block, so the handler runs.
\<close>

definition on_invalid :: "config_cache \<Rightarrow> (py_error + pydict option) \<times> config_cache" where
  "on_invalid s =
     (let s' = s\<lparr>fetch_in_progress := False\<rparr>
      in case cache s' of
           Some stale \<Rightarrow> (Inr (Some stale), s')
         | None \<Rightarrow> on_exception ValueError s')"

text \<open>The \<open>try\<close> block of \<open>get_config\<close>, run outside the lock.\<close>

definition get_config_fetch ::
  "environment \<Rightarrow> rat \<Rightarrow> config_cache \<Rightarrow> (py_error + pydict option) \<times> config_cache" where
  "get_config_fetch env current_time s =
     (case sheet_data env of
        Inl e \<Rightarrow> on_exception e s
      | Inr rows \<Rightarrow>
          if rows = [] then on_invalid s
          else
            (case parse_to_config (json_loads env) rows of
               Inl e \<Rightarrow> on_exception e s
             | Inr config \<Rightarrow>
                 if \<not> validate_config (known_timezone env) config then on_invalid s
                 else (Inr (Some config),
                       s\<lparr>cache := Some config, cache_time := Some current_time,
                         fetch_in_progress := False\<rparr>)))"

text \<open>
  \<open>get_config\<close>, for a call that no other call interleaves with. The second component
  counts the calls of \<open>get_sheet_data\<close> it made.
\<close>

definition get_config ::
  "environment \<Rightarrow> config_cache \<Rightarrow> bool \<Rightarrow> (py_error + pydict option) \<times> nat \<times> config_cache" where
  "get_config env s force_refresh =
     (case get_config_locked (time_now env) s force_refresh of
        (Some r, s') \<Rightarrow> (Inr r, 0, s')
      | (None, s') \<Rightarrow>
          (case get_config_fetch env (time_now env) s' of
             (r, s'') \<Rightarrow> (r, 1, s'')))"

definition clear_config_cache :: "config_cache \<Rightarrow> config_cache" where
  "clear_config_cache s = s\<lparr>cache := None, cache_time := None\<rparr>"

definition set_cache_ttl :: "config_cache \<Rightarrow> int \<Rightarrow> config_cache" where
  "set_cache_ttl s ttl_seconds = (if ttl_seconds < 0 then s else s\<lparr>cache_ttl := ttl_seconds\<rparr>)"

section \<open>Input validation (validators.py)\<close>





section \<open>The estimate tool (models.py, main.py)\<close>

datatype error_code = INVALID_INPUT | INVALID_COURIER | INVALID_REGION | CONFIG_ERROR
  | INTERNAL_ERROR | SERVICE_UNAVAILABLE







section \<open>Specification-level functions\<close>

text \<open>
  The holiday lists as functions of the year alone: what the \<open>try\<close> blocks compute,
  with the empty list on an exception. \<open>get_ph_holidays\<close> and
  \<open>get_major_ph_holidays\<close> return these values in every state the program reaches
  (lemma \<open>get_ph_holidays_consistent\<close> below).
\<close>

definition ph_holidays :: "int \<Rightarrow> date list" where
  "ph_holidays yr = (case ph_holidays_try yr of Inr hs \<Rightarrow> hs | Inl _ \<Rightarrow> [])"

definition major_ph_holidays :: "int \<Rightarrow> date list" where
  "major_ph_holidays yr = (case major_ph_holidays_try yr of Inr hs \<Rightarrow> hs | Inl _ \<Rightarrow> [])"

text \<open>The skip decision of \<open>should_skip_date\<close>, without the caches.\<close>

definition skip_day :: "string \<Rightarrow> date \<Rightarrow> bool" where
  "skip_day courier_name dt =
     (if courier_name = ''J&T'' then dt \<in> set (major_ph_holidays (year dt))
      else is_sunday dt \<or> dt \<in> set (ph_holidays (year dt)))"

text \<open>
  The states of the two caches that the program can reach: it starts with both empty,
  and only \<open>get_ph_holidays\<close>, \<open>get_major_ph_holidays\<close> and \<open>clear_cache\<close>
  write them.
\<close>

inductive reachable :: "holiday_state \<Rightarrow> bool" where
  reachable_initial: "reachable initial_holiday_state"
| reachable_ph: "reachable s \<Longrightarrow> reachable (snd (get_ph_holidays s yr))"
| reachable_major: "reachable s \<Longrightarrow> reachable (snd (get_major_ph_holidays s yr))"
| reachable_clear: "reachable s \<Longrightarrow> reachable (clear_cache s)"

text \<open>Every cached list is the one the \<open>try\<close> block computes for its year.\<close>

definition cache_consistent :: "holiday_state \<Rightarrow> bool" where
  "cache_consistent s =
     ((\<forall>yr hs. holiday_cache s yr = Some hs \<longrightarrow> ph_holidays_try yr = Inr hs) \<and>
      (\<forall>yr hs. major_holiday_cache s yr = Some hs \<longrightarrow> major_ph_holidays_try yr = Inr hs))"


text \<open>The loop of \<open>calculate_delivery_date\<close> over \<open>skip_day\<close>, without the caches.\<close>

function delivery_walk ::
  "string \<Rightarrow> int \<Rightarrow> int \<Rightarrow> int \<Rightarrow> date \<Rightarrow> int \<Rightarrow> py_error + int \<times> date \<times> int" where
  "delivery_walk courier_name base_days max_iterations days_added current_date iterations =
     (if days_added < base_days \<and> iterations < max_iterations then
        (case date_add_days current_date 1 of
           Inl e \<Rightarrow> Inl e
         | Inr current_date' \<Rightarrow>
             delivery_walk courier_name base_days max_iterations
               (if \<not> skip_day courier_name current_date' then days_added + 1 else days_added)
               current_date' (iterations + 1))
      else Inr (days_added, current_date, iterations))"
  by pat_completeness auto
termination
  by (relation "measure (\<lambda>(c, b, m, a, d, i). nat (m - i))") auto

declare delivery_walk.simps [simp del]
declare delivery_loop.simps [simp del]

text \<open>
  \<open>day_after dt k\<close> is the date reached by \<open>k\<close> one-day advances from \<open>dt\<close>
  (or the exception of the first advance that leaves the calendar), and
  \<open>business_days c dt k\<close> counts the days among them that courier \<open>c\<close> does not skip:
  the value of \<open>days_added\<close> after \<open>k\<close> advances.
\<close>

fun day_after :: "date \<Rightarrow> nat \<Rightarrow> py_error + date" where
  "day_after dt 0 = Inr dt"
| "day_after dt (Suc k) =
     (case date_add_days dt 1 of Inl e \<Rightarrow> Inl e | Inr dt' \<Rightarrow> day_after dt' k)"

fun business_days :: "string \<Rightarrow> date \<Rightarrow> nat \<Rightarrow> int" where
  "business_days courier_name dt 0 = 0"
| "business_days courier_name dt (Suc k) =
     (case date_add_days dt 1 of
        Inl e \<Rightarrow> 0
      | Inr dt' \<Rightarrow> (if skip_day courier_name dt' then 0 else 1) + business_days courier_name dt' k)"


abbreviation ymd :: "int \<Rightarrow> int \<Rightarrow> int \<Rightarrow> date" where
  "ymd y m d \<equiv> \<lparr>year = y, month = m, day = d\<rparr>"


text \<open>
  The check made for one year in the Easter property: the Computus itself (not the
  April 15 fallback) gives a date of that year whose ordinal \<open>n\<close> is that of a Sunday
  and leaves room for the three days before it.
\<close>

definition easter_check :: "int \<Rightarrow> bool" where
  "easter_check yr =
     (case computus yr of
        Inl _ \<Rightarrow> False
      | Inr e \<Rightarrow> year e = yr \<and>
          (let n = toordinal e in 3 < n \<and> n \<le> MAXORDINAL \<and> (n + 6) mod 7 = 6))"

text \<open>The iteration bound in force: the argument, or the class constant when it is \<open>None\<close>.\<close>

definition iteration_bound :: "int option \<Rightarrow> int" where
  "iteration_bound max_iterations_arg =
     (case max_iterations_arg of None \<Rightarrow> MAX_CALCULATION_ITERATIONS | Some m \<Rightarrow> m)"

text \<open>
  The outcome of the remote fetch, the parse and the validation of one call: the
  validated configuration, or the exception that reaches the handler (\<open>ValueError\<close>
  for an empty sheet and for a failed validation).
\<close>

definition fetched_config :: "environment \<Rightarrow> py_error + pydict" where
  "fetched_config env =
     (case sheet_data env of
        Inl e \<Rightarrow> Inl e
      | Inr rows \<Rightarrow>
          if rows = [] then Inl ValueError
          else
            (case parse_to_config (json_loads env) rows of
               Inl e \<Rightarrow> Inl e
             | Inr config \<Rightarrow>
                 if validate_config (known_timezone env) config then Inr config
                 else Inl ValueError))"


text \<open>
  An environment for concrete runs: a sheet with two couriers, read at clock reading
  \<open>t\<close>; the decoder returns the courier table for the text of the \<open>couriers\<close> cell.
\<close>

definition example_couriers :: pydict where
  "example_couriers =
     [(''LBC'', PDict [(''ncr'', PInt 2), (''luzon'', PInt 3)]),
      (''J&T'', PDict [(''ncr'', PInt 1)])]"

definition example_config :: pydict where
  "example_config =
     [(''store_name'', PStr ''Shop''), (''timezone'', PStr ''Asia/Manila''),
      (''cutoff_time'', PStr ''14:00''), (''working_days'', PList [PStr ''Mon'', PStr ''Tue'']),
      (''couriers'', PDict example_couriers)]"

definition example_rows :: "string list list" where
  "example_rows =
     [[''store_name'', ''Shop''], [''timezone'', ''Asia/Manila''], [''cutoff_time'', ''14:00''],
      [''working_days'', ''Mon, Tue''], [''couriers'', ''{couriers}'']]"

definition example_now :: datetime where
  "example_now = \<lparr>date_part = ymd 2025 12 24, hour = 9, minute = 0, second = 0,
                    microsecond = 0, tzinfo = Some ''Asia/Manila''\<rparr>"

definition example_env :: "rat \<Rightarrow> environment" where
  "example_env t =
     \<lparr>time_now = t,
      sheet_data = Inr example_rows,
      json_loads = (\<lambda>text. if text = ''{couriers}'' then Inr (PDict example_couriers)
                             else Inl JSONDecodeError),
      known_timezone = (\<lambda>tz. tz \<in> set [''Asia/Manila'', ''UTC'']),
      now_in_zone = (\<lambda>tz. example_now)\<rparr>"

definition failing_env :: "rat \<Rightarrow> environment" where
  "failing_env t = (example_env t)\<lparr>sheet_data := Inl FetchError\<rparr>"

section \<open>Properties of the date arithmetic\<close>

text \<open>
  The ordinal of the date that \<open>_ord2ymd\<close> builds from \<open>n\<close> is \<open>n\<close>, for every
  integer \<open>n\<close>: adding days to a date adds them to its ordinal.
\<close>

lemma days_before_year_decomp:
  assumes "0 \<le> n100" "n100 \<le> 3" "0 \<le> n4" "n4 \<le> 24" "0 \<le> n1" "n1 \<le> 3"
  shows "days_before_year (n400 * 400 + 1 + n100 * 100 + n4 * 4 + n1)
           = 146097 * n400 + 36524 * n100 + 1461 * n4 + 365 * n1"
proof -
  let ?y = "n400 * 400 + n100 * 100 + n4 * 4 + n1"
  have d4: "?y div 4 = 100 * n400 + 25 * n100 + n4"
    by (rule int_div_pos_eq [where r = n1]) (use assms in simp_all)
  have d100: "?y div 100 = 4 * n400 + n100"
    by (rule int_div_pos_eq [where r = "n4 * 4 + n1"]) (use assms in simp_all)
  have d400: "?y div 400 = n400"
    by (rule int_div_pos_eq [where r = "n100 * 100 + n4 * 4 + n1"]) (use assms in simp_all)
  have eq: "n400 * 400 + 1 + n100 * 100 + n4 * 4 + n1 = ?y + 1" by simp
  have "days_before_year (?y + 1) = ?y * 365 + ?y div 4 - ?y div 100 + ?y div 400"
    unfolding days_before_year_def Let_def by (simp only: add_diff_cancel_right')
  also have "\<dots> = 146097 * n400 + 36524 * n100 + 1461 * n4 + 365 * n1"
    unfolding d4 d100 d400 by simp
  finally show ?thesis unfolding eq .
qed

lemma is_leap_decomp:
  assumes "0 \<le> n100" "n100 \<le> 3" "0 \<le> n4" "n4 \<le> 24" "0 \<le> n1" "n1 \<le> 3"
  shows "is_leap (n400 * 400 + 1 + n100 * 100 + n4 * 4 + n1)
           \<longleftrightarrow> (n1 = 3 \<and> (n4 \<noteq> 24 \<or> n100 = 3))"
proof -
  let ?y = "n400 * 400 + 1 + n100 * 100 + n4 * 4 + n1"
  have m4: "?y mod 4 = (if n1 = 3 then 0 else n1 + 1)"
  proof (cases "n1 = 3")
    case True
    have "?y mod 4 = 0"
      by (rule int_mod_pos_eq [where q = "100 * n400 + 25 * n100 + n4 + 1"]) (use True in simp_all)
    with True show ?thesis by simp
  next
    case False
    have "?y mod 4 = n1 + 1"
      by (rule int_mod_pos_eq [where q = "100 * n400 + 25 * n100 + n4"]) (use False assms in simp_all)
    with False show ?thesis by simp
  qed
  have m100: "?y mod 100 = (if n1 = 3 \<and> n4 = 24 then 0 else n4 * 4 + n1 + 1)"
  proof (cases "n1 = 3 \<and> n4 = 24")
    case True
    have "?y mod 100 = 0"
      by (rule int_mod_pos_eq [where q = "4 * n400 + n100 + 1"]) (use True in simp_all)
    with True show ?thesis by simp
  next
    case False
    have "?y mod 100 = n4 * 4 + n1 + 1"
      by (rule int_mod_pos_eq [where q = "4 * n400 + n100"]) (use False assms in auto)
    with False show ?thesis by simp
  qed
  have m400: "?y mod 400 = (if n1 = 3 \<and> n4 = 24 \<and> n100 = 3 then 0 else n100 * 100 + n4 * 4 + n1 + 1)"
  proof (cases "n1 = 3 \<and> n4 = 24 \<and> n100 = 3")
    case True
    have "?y mod 400 = 0"
      by (rule int_mod_pos_eq [where q = "n400 + 1"]) (use True in simp_all)
    with True show ?thesis by simp
  next
    case False
    have "?y mod 400 = n100 * 100 + n4 * 4 + n1 + 1"
      by (rule int_mod_pos_eq [where q = "n400"]) (use False assms in auto)
    with False show ?thesis by simp
  qed
  show ?thesis
    unfolding is_leap_def m4 m100 m400 using assms by auto
qed


lemma days_before_month_adjust:
  assumes "2 \<le> m" "m \<le> 12"
  shows "DAYS_BEFORE_MONTH ! nat m + (if m > 2 \<and> leap then 1 else 0)
           - (DAYS_IN_MONTH ! nat (m - 1) + (if m - 1 = 2 \<and> leap then 1 else 0))
         = DAYS_BEFORE_MONTH ! nat (m - 1) + (if m - 1 > 2 \<and> leap then (1::int) else 0)"
proof -
  have "m = 2 \<or> m = 3 \<or> m = 4 \<or> m = 5 \<or> m = 6 \<or> m = 7 \<or> m = 8 \<or> m = 9 \<or> m = 10
          \<or> m = 11 \<or> m = 12"
  proof (cases "m \<le> 6")
    case True
    with assms have "m = 2 \<or> m = 3 \<or> m = 4 \<or> m = 5 \<or> m = 6" by linarith
    then show ?thesis by blast
  next
    case False
    with assms have "m = 7 \<or> m = 8 \<or> m = 9 \<or> m = 10 \<or> m = 11 \<or> m = 12" by linarith
    then show ?thesis by blast
  qed
  then show ?thesis
    by (elim disjE) (simp_all add: DAYS_BEFORE_MONTH_def DAYS_IN_MONTH_def)
qed

lemma ymd2ord_ord2ymd: "(case ord2ymd n of (y, m, d) \<Rightarrow> ymd2ord y m d) = n"
proof -
  define n0 where "n0 = n - 1"
  define n400 where "n400 = n0 div 146097"
  define r1 where "r1 = n0 mod 146097"
  define n100 where "n100 = r1 div 36524"
  define r2 where "r2 = r1 mod 36524"
  define n4 where "n4 = r2 div 1461"
  define r3 where "r3 = r2 mod 1461"
  define n1 where "n1 = r3 div 365"
  define r4 where "r4 = r3 mod 365"
  define y where "y = n400 * 400 + 1 + n100 * 100 + n4 * 4 + n1"
  define leap where "leap = (n1 = 3 \<and> (n4 \<noteq> 24 \<or> n100 = 3))"
  define m0 where "m0 = (r4 + 50) div 32"
  define prec where "prec = DAYS_BEFORE_MONTH ! nat m0 + (if m0 > 2 \<and> leap then 1 else 0)"
  have unfolded: "ord2ymd n =
      (if n1 = 4 \<or> n100 = 4 then (y - 1, 12, 31)
       else if prec > r4
            then (y, m0 - 1, r4 - (prec - (DAYS_IN_MONTH ! nat (m0 - 1)
                                     + (if m0 - 1 = 2 \<and> leap then 1 else 0))) + 1)
            else (y, m0, r4 - prec + 1))"
    unfolding ord2ymd_def Let_def prec_def m0_def leap_def y_def r4_def n1_def r3_def n4_def
      r2_def n100_def r1_def n400_def n0_def
    by (rule refl)
  have e0: "n0 = 146097 * n400 + r1" and b1: "0 \<le> r1" "r1 < 146097"
    by (simp_all add: n400_def r1_def)
  have e1: "r1 = 36524 * n100 + r2" and b2: "0 \<le> r2" "r2 < 36524"
    by (simp_all add: n100_def r2_def)
  have e2: "r2 = 1461 * n4 + r3" and b3: "0 \<le> r3" "r3 < 1461"
    by (simp_all add: n4_def r3_def)
  have e3: "r3 = 365 * n1 + r4" and b4: "0 \<le> r4" "r4 < 365"
    by (simp_all add: n1_def r4_def)
  have n100: "0 \<le> n100" "n100 \<le> 4"
    using b1 e1 b2 by linarith+
  have n4: "0 \<le> n4" "n4 \<le> 24"
    using b2 e2 b3 by linarith+
  have n1: "0 \<le> n1" "n1 \<le> 4"
    using b3 e3 b4 by linarith+
  show ?thesis
  proof (cases "n100 = 4")
    case True
    with e1 b1 b2 have "r2 = 0" by linarith
    with e2 b3 n4 have "n4 = 0" "r3 = 0" by (simp_all add: n4_def r3_def)
    with e3 b4 n1 have "n1 = 0" "r4 = 0" by (simp_all add: n1_def r4_def)
    have y1: "y - 1 = n400 * 400 + 1 + 3 * 100 + 24 * 4 + 3"
      by (simp add: y_def True \<open>n4 = 0\<close> \<open>n1 = 0\<close>)
    have "days_before_year (y - 1) = 146097 * n400 + 36524 * 3 + 1461 * 24 + 365 * 3"
      unfolding y1 by (rule days_before_year_decomp) simp_all
    moreover have "is_leap (y - 1)"
      unfolding y1 by (subst is_leap_decomp) simp_all
    moreover have "n = 146097 * n400 + 146097"
      using e0 e1 True \<open>r2 = 0\<close> by (simp add: n0_def)
    moreover have res: "ord2ymd n = (y - 1, 12, 31)"
      using True by (simp add: unfolded)
    ultimately show ?thesis
      unfolding res by (simp add: ymd2ord_def days_before_month_def DAYS_BEFORE_MONTH_def)
  next
    case n100_ne: False
    with n100 have n100': "n100 \<le> 3" by simp
    show ?thesis
    proof (cases "n1 = 4")
      case True
      with e3 b3 b4 have "r4 = 0" by linarith
      have "n4 \<le> 23" using e2 e3 True b2 b4 by linarith
      have y1: "y - 1 = n400 * 400 + 1 + n100 * 100 + n4 * 4 + 3"
        by (simp add: y_def True)
      have "days_before_year (y - 1) = 146097 * n400 + 36524 * n100 + 1461 * n4 + 365 * 3"
        unfolding y1 by (rule days_before_year_decomp) (use n100 n100' n4 in simp_all)
      moreover have "is_leap (y - 1)"
        unfolding y1 by (subst is_leap_decomp) (use n100 n100' n4 \<open>n4 \<le> 23\<close> in simp_all)
      moreover have "n = 146097 * n400 + 36524 * n100 + 1461 * n4 + 1461"
        using e0 e1 e2 e3 True \<open>r4 = 0\<close> by (simp add: n0_def)
      moreover have res: "ord2ymd n = (y - 1, 12, 31)"
        using True by (simp add: unfolded)
      ultimately show ?thesis
        unfolding res by (simp add: ymd2ord_def days_before_month_def DAYS_BEFORE_MONTH_def)
    next
      case n1_ne: False
      with n1 have n1': "n1 \<le> 3" by simp
      have dby: "days_before_year y = 146097 * n400 + 36524 * n100 + 1461 * n4 + 365 * n1"
        unfolding y_def by (rule days_before_year_decomp) (use n100 n100' n4 n1 n1' in simp_all)
      have lp: "is_leap y = leap"
        unfolding y_def leap_def by (rule is_leap_decomp) (use n100 n100' n4 n1 n1' in simp_all)
      have n: "n = 146097 * n400 + 36524 * n100 + 1461 * n4 + 365 * n1 + r4 + 1"
        using e0 e1 e2 e3 by (simp add: n0_def)
      show ?thesis
      proof (cases "prec > r4")
        case False
        then have res: "ord2ymd n = (y, m0, r4 - prec + 1)"
          using n100_ne n1_ne by (simp add: unfolded)
        have "days_before_month y m0 = prec"
          by (simp add: days_before_month_def prec_def lp)
        then show ?thesis
          unfolding res using dby n by (simp add: ymd2ord_def)
      next
        case True
        have "1 \<le> m0" "m0 \<le> 12" using b4 by (simp_all add: m0_def)
        moreover have "m0 \<noteq> 1"
        proof
          assume "m0 = 1"
          then have "prec = 0" by (simp add: prec_def DAYS_BEFORE_MONTH_def)
          with True b4 show False by simp
        qed
        ultimately have m0: "2 \<le> m0" "m0 \<le> 12" by simp_all
        have res: "ord2ymd n = (y, m0 - 1, r4 - (prec - (DAYS_IN_MONTH ! nat (m0 - 1)
                                     + (if m0 - 1 = 2 \<and> leap then 1 else 0))) + 1)"
          using True n100_ne n1_ne by (simp add: unfolded)
        have "days_before_month y (m0 - 1)
                = prec - (DAYS_IN_MONTH ! nat (m0 - 1) + (if m0 - 1 = 2 \<and> leap then 1 else 0))"
          unfolding days_before_month_def prec_def lp
          by (rule days_before_month_adjust [OF m0, symmetric])
        then show ?thesis
          unfolding res using dby n by (simp add: ymd2ord_def)
      qed
    qed
  qed
qed

lemma toordinal_fromordinal: "toordinal (fromordinal n) = n"
  using ymd2ord_ord2ymd [of n]
  by (simp add: toordinal_def fromordinal_def split: prod.splits)

lemma date_add_days_Inr_iff:
  "date_add_days dt k = Inr dt' \<longleftrightarrow>
     0 < toordinal dt + k \<and> toordinal dt + k \<le> MAXORDINAL \<and> dt' = fromordinal (toordinal dt + k)"
  by (auto simp: date_add_days_def Let_def)

lemma date_add_days_ordinal:
  assumes "date_add_days dt k = Inr dt'"
  shows "toordinal dt' = toordinal dt + k"
  using assms by (simp add: date_add_days_Inr_iff toordinal_fromordinal)

lemma date_add_days_weekday:
  assumes "date_add_days dt k = Inr dt'"
  shows "weekday dt' = (weekday dt + k) mod 7"
  unfolding weekday_def date_add_days_ordinal [OF assms] by presburger

section \<open>Properties of the holiday calculator\<close>

lemma get_ph_holidays_consistent:
  assumes "cache_consistent s"
  shows "fst (get_ph_holidays s yr) = ph_holidays yr"
    and "cache_consistent (snd (get_ph_holidays s yr))"
  using assms
  by (auto simp: get_ph_holidays_def ph_holidays_def cache_consistent_def
      split: option.splits sum.splits)

lemma get_major_ph_holidays_consistent:
  assumes "cache_consistent s"
  shows "fst (get_major_ph_holidays s yr) = major_ph_holidays yr"
    and "cache_consistent (snd (get_major_ph_holidays s yr))"
  using assms
  by (auto simp: get_major_ph_holidays_def major_ph_holidays_def cache_consistent_def
      split: option.splits sum.splits)

lemma reachable_consistent: "reachable s \<Longrightarrow> cache_consistent s"
proof (induction rule: reachable.induct)
  case reachable_initial
  show ?case by (simp add: cache_consistent_def initial_holiday_state_def)
next
  case (reachable_ph s yr)
  then show ?case by (simp add: get_ph_holidays_consistent)
next
  case (reachable_major s yr)
  then show ?case by (simp add: get_major_ph_holidays_consistent)
next
  case (reachable_clear s)
  show ?case by (simp add: cache_consistent_def clear_cache_def)
qed

lemma is_holiday_consistent:
  assumes "cache_consistent s"
  shows "fst (is_holiday s dt major_only) =
           (dt \<in> set (if major_only then major_ph_holidays (year dt) else ph_holidays (year dt)))"
    and "cache_consistent (snd (is_holiday s dt major_only))"
  using get_ph_holidays_consistent [OF assms, of "year dt"]
        get_major_ph_holidays_consistent [OF assms, of "year dt"]
  by (auto simp: is_holiday_def split: prod.splits)

lemma is_holiday_reachable:
  "reachable s \<Longrightarrow> reachable (snd (is_holiday s dt major_only))"
  using reachable_ph [of s "year dt"] reachable_major [of s "year dt"]
  by (auto simp: is_holiday_def split: prod.splits)

lemma should_skip_date_consistent:
  assumes "cache_consistent s"
  shows "fst (should_skip_date s c dt) = skip_day c dt"
    and "cache_consistent (snd (should_skip_date s c dt))"
  using is_holiday_consistent [OF assms, of dt True] is_holiday_consistent [OF assms, of dt False]
  by (auto simp: should_skip_date_def skip_day_def Let_def split: prod.splits)

lemma should_skip_date_reachable:
  "reachable s \<Longrightarrow> reachable (snd (should_skip_date s c dt))"
  using is_holiday_reachable [of s dt True] is_holiday_reachable [of s dt False]
  by (auto simp: should_skip_date_def Let_def split: prod.splits)

lemma sorted_set_sorted: "sorted_wrt (\<lambda>a b. date_key a < date_key b) (sorted_set ds)"
proof -
  have inj: "inj_on date_key A" for A
    by (rule inj_onI) (simp add: date_key_def)
  have "sorted (map date_key (sorted_set ds))"
    by (simp add: sorted_set_def)
  moreover have "distinct (map date_key (sorted_set ds))"
    using inj by (simp add: sorted_set_def distinct_map)
  ultimately have "sorted_wrt (<) (map date_key (sorted_set ds))"
    by (simp add: strict_sorted_iff)
  then show ?thesis by (simp add: sorted_wrt_map)
qed

lemma sorted_set_distinct: "distinct (sorted_set ds)"
  by (simp add: sorted_set_def)

lemma set_sorted_set: "set (sorted_set ds) = set ds"
  by (simp add: sorted_set_def)

lemma date_of_fixed:
  assumes "1 \<le> yr" "yr \<le> 9999" "m \<in> {1, 4, 5, 6, 8, 11, 12}" "1 \<le> d" "d \<le> 30"
  shows "date_of yr m d = Inr \<lparr>year = yr, month = m, day = d\<rparr>"
  using assms
  by (auto simp: date_of_def MINYEAR_def MAXYEAR_def days_in_month_def DAYS_IN_MONTH_def)

lemma date_of_dec31:
  assumes "1 \<le> yr" "yr \<le> 9999"
  shows "date_of yr 12 31 = Inr \<lparr>year = yr, month = 12, day = 31\<rparr>"
  using assms
  by (auto simp: date_of_def MINYEAR_def MAXYEAR_def days_in_month_def DAYS_IN_MONTH_def)

lemma date_of_bad_year:
  assumes "\<not> (1 \<le> yr \<and> yr \<le> 9999)"
  shows "date_of yr m d = Inl ValueError"
  using assms by (auto simp: date_of_def MINYEAR_def MAXYEAR_def)

lemma ph_holidays_try_valid:
  assumes "1 \<le> yr" "yr \<le> 9999"
  shows "ph_holidays_try yr = Inr (sorted_set
           ([\<lparr>year = yr, month = 1, day = 1\<rparr>, \<lparr>year = yr, month = 4, day = 9\<rparr>,
             \<lparr>year = yr, month = 5, day = 1\<rparr>, \<lparr>year = yr, month = 6, day = 12\<rparr>,
             \<lparr>year = yr, month = 8, day = 21\<rparr>, \<lparr>year = yr, month = 8, day = 25\<rparr>,
             \<lparr>year = yr, month = 11, day = 1\<rparr>, \<lparr>year = yr, month = 11, day = 30\<rparr>,
             \<lparr>year = yr, month = 12, day = 25\<rparr>, \<lparr>year = yr, month = 12, day = 30\<rparr>,
             \<lparr>year = yr, month = 12, day = 31\<rparr>] @ get_holy_week_dates yr))"
  using assms by (simp add: ph_holidays_try_def date_of_fixed date_of_dec31)

lemma ph_holidays_try_invalid:
  assumes "\<not> (1 \<le> yr \<and> yr \<le> 9999)"
  shows "ph_holidays_try yr = Inl ValueError"
  by (simp add: ph_holidays_try_def date_of_bad_year [OF assms])

lemma major_ph_holidays_try_valid:
  assumes "1 \<le> yr" "yr \<le> 9999"
  shows "major_ph_holidays_try yr = Inr (sorted_set
           (if length (get_holy_week_dates yr) \<ge> 2
            then [\<lparr>year = yr, month = 1, day = 1\<rparr>, \<lparr>year = yr, month = 12, day = 25\<rparr>]
                   @ [get_holy_week_dates yr ! 0, get_holy_week_dates yr ! 1]
            else [\<lparr>year = yr, month = 1, day = 1\<rparr>, \<lparr>year = yr, month = 12, day = 25\<rparr>]))"
  using assms by (simp add: major_ph_holidays_try_def date_of_fixed Let_def)

lemma major_ph_holidays_try_invalid:
  assumes "\<not> (1 \<le> yr \<and> yr \<le> 9999)"
  shows "major_ph_holidays_try yr = Inl ValueError"
  by (simp add: major_ph_holidays_try_def date_of_bad_year [OF assms])

lemma ph_sorted: "sorted_wrt (\<lambda>a b. date_key a < date_key b) (ph_holidays yr)"
  by (auto simp: ph_holidays_def ph_holidays_try_def sorted_set_sorted split: sum.splits)

lemma ph_distinct: "distinct (ph_holidays yr)"
  by (auto simp: ph_holidays_def ph_holidays_try_def sorted_set_distinct split: sum.splits)

lemma nth01_mem:
  assumes "2 \<le> length xs"
  shows "xs ! 0 \<in> set xs \<and> xs ! 1 \<in> set xs"
proof (cases xs)
  case Nil
  with assms show ?thesis by simp
next
  case (Cons a ys)
  with assms show ?thesis by (cases ys) auto
qed

lemma major_subset: "set (major_ph_holidays yr) \<subseteq> set (ph_holidays yr)"
proof (cases "1 \<le> yr \<and> yr \<le> 9999")
  case True
  show ?thesis
  proof (cases "2 \<le> length (get_holy_week_dates yr)")
    case long: True
    from nth01_mem [OF long] True show ?thesis
      by (simp add: ph_holidays_def major_ph_holidays_def ph_holidays_try_valid
          major_ph_holidays_try_valid set_sorted_set long)
  next
    case short: False
    with True show ?thesis
      by (simp add: ph_holidays_def major_ph_holidays_def ph_holidays_try_valid
          major_ph_holidays_try_valid set_sorted_set)
  qed
next
  case False
  then show ?thesis
    by (simp add: major_ph_holidays_def major_ph_holidays_try_invalid)
qed

section \<open>The delivery loop\<close>

lemma delivery_loop_stop:
  assumes "\<not> (da < b \<and> its < m)"
  shows "delivery_loop c b m s da cur its = (Inr (da, cur, its), s)"
  using assms by (subst delivery_loop.simps) auto

lemma delivery_loop_overflow:
  assumes "da < b" "its < m" "date_add_days cur 1 = Inl e"
  shows "delivery_loop c b m s da cur its = (Inl e, s)"
  using assms by (subst delivery_loop.simps) auto

lemma delivery_loop_step:
  assumes "da < b" "its < m" "date_add_days cur 1 = Inr cur'"
    and "should_skip_date s c cur' = (skip, s')"
  shows "delivery_loop c b m s da cur its =
           delivery_loop c b m s' (if \<not> skip then da + 1 else da) cur' (its + 1)"
  using assms by (subst delivery_loop.simps) auto

lemma delivery_walk_stop:
  assumes "\<not> (da < b \<and> its < m)"
  shows "delivery_walk c b m da cur its = Inr (da, cur, its)"
  using assms by (subst delivery_walk.simps) auto

lemma delivery_walk_overflow:
  assumes "da < b" "its < m" "date_add_days cur 1 = Inl e"
  shows "delivery_walk c b m da cur its = Inl e"
  using assms by (subst delivery_walk.simps) auto

lemma delivery_walk_step:
  assumes "da < b" "its < m" "date_add_days cur 1 = Inr cur'"
  shows "delivery_walk c b m da cur its =
           delivery_walk c b m (if \<not> skip_day c cur' then da + 1 else da) cur' (its + 1)"
  using assms by (subst delivery_walk.simps) auto

lemma delivery_loop_walk:
  assumes "cache_consistent s"
  shows "fst (delivery_loop c b m s da cur its) = delivery_walk c b m da cur its \<and>
         cache_consistent (snd (delivery_loop c b m s da cur its))"
  using assms
proof (induction c b m s da cur its rule: delivery_loop.induct)
  case (1 c b m s da cur its)
  show ?case
  proof (cases "da < b \<and> its < m")
    case False
    then show ?thesis
      using "1.prems" by (simp add: delivery_loop_stop delivery_walk_stop)
  next
    case True
    show ?thesis
    proof (cases "date_add_days cur 1")
      case (Inl e)
      then show ?thesis
        using True "1.prems" by (simp add: delivery_loop_overflow delivery_walk_overflow)
    next
      case (Inr cur')
      obtain skip s' where sk: "should_skip_date s c cur' = (skip, s')"
        by (cases "should_skip_date s c cur'")
      have skip: "skip = skip_day c cur'" and cons: "cache_consistent s'"
        using should_skip_date_consistent [OF "1.prems", of c cur'] sk by simp_all
      have "fst (delivery_loop c b m s' (if \<not> skip then da + 1 else da) cur' (its + 1))
              = delivery_walk c b m (if \<not> skip then da + 1 else da) cur' (its + 1) \<and>
            cache_consistent (snd (delivery_loop c b m s' (if \<not> skip then da + 1 else da) cur' (its + 1)))"
        using "1.IH" [OF True Inr sk [symmetric] cons] .
      then show ?thesis
        using True Inr sk skip
        by (simp add: delivery_loop_step [of da b its m cur cur' s c skip s']
            delivery_walk_step [of da b its m cur cur' c])
    qed
  qed
qed

lemma delivery_loop_reachable:
  assumes "reachable s"
  shows "reachable (snd (delivery_loop c b m s da cur its))"
  using assms
proof (induction c b m s da cur its rule: delivery_loop.induct)
  case (1 c b m s da cur its)
  show ?case
  proof (cases "da < b \<and> its < m")
    case False
    then show ?thesis
      using "1.prems" by (simp add: delivery_loop_stop)
  next
    case True
    show ?thesis
    proof (cases "date_add_days cur 1")
      case (Inl e)
      then show ?thesis
        using True "1.prems" by (simp add: delivery_loop_overflow)
    next
      case (Inr cur')
      obtain skip s' where sk: "should_skip_date s c cur' = (skip, s')"
        by (cases "should_skip_date s c cur'")
      have r: "reachable s'"
        using should_skip_date_reachable [OF "1.prems", of c cur'] sk by simp
      show ?thesis
        using True Inr sk "1.IH" [OF True Inr sk [symmetric] r]
        by (simp add: delivery_loop_step [of da b its m cur cur' s c skip s'])
    qed
  qed
qed

lemma business_days_nonneg: "0 \<le> business_days c cur k"
  by (induction k arbitrary: cur) (auto split: sum.splits)

lemma business_days_last:
  assumes "day_after cur (Suc k) = Inr d" "\<not> skip_day c d"
  shows "1 \<le> business_days c cur (Suc k)"
  using assms
proof (induction k arbitrary: cur)
  case 0
  then show ?case by (auto split: sum.splits)
next
  case (Suc k)
  from Suc.prems obtain cur' where c: "date_add_days cur 1 = Inr cur'"
    and d: "day_after cur' (Suc k) = Inr d"
    by (cases "date_add_days cur 1") auto
  from Suc.IH [OF d Suc.prems(2)] have "1 \<le> business_days c cur' (Suc k)" .
  then show ?case using c by simp
qed

lemma walk_reaches:
  assumes "day_after cur (Suc k) = Inr d" "\<not> skip_day c d"
    and "da + business_days c cur (Suc k) = b"
    and "its + int (Suc k) \<le> m"
  shows "delivery_walk c b m da cur its = Inr (b, d, its + int (Suc k))"
  using assms
proof (induction k arbitrary: cur da its)
  case 0
  from "0.prems"(1) have c: "date_add_days cur 1 = Inr d"
    by (cases "date_add_days cur 1") auto
  from "0.prems" c have da: "da + 1 = b" by simp
  have "delivery_walk c b m da cur its = delivery_walk c b m (da + 1) d (its + 1)"
    using delivery_walk_step [of da b its m cur d c] "0.prems" c da by simp
  also have "\<dots> = Inr (b, d, its + 1)"
    using da by (simp add: delivery_walk_stop)
  finally show ?case by simp
next
  case (Suc k)
  from Suc.prems(1) obtain cur' where c: "date_add_days cur 1 = Inr cur'"
    and d: "day_after cur' (Suc k) = Inr d"
    by (cases "date_add_days cur 1") auto
  let ?da' = "if \<not> skip_day c cur' then da + 1 else da"
  have bd: "?da' + business_days c cur' (Suc k) = b"
    using Suc.prems(3) c by (cases "skip_day c cur'") simp_all
  have ge1: "1 \<le> business_days c cur' (Suc k)"
    by (rule business_days_last [OF d Suc.prems(2)])
  have lt: "da < b" using bd ge1 by (simp split: if_splits)
  have its: "its < m" using Suc.prems(4) by simp
  have "delivery_walk c b m da cur its = delivery_walk c b m ?da' cur' (its + 1)"
    by (rule delivery_walk_step [OF lt its c])
  also have "\<dots> = Inr (b, d, (its + 1) + int (Suc k))"
    by (rule Suc.IH [OF d Suc.prems(2) bd]) (use Suc.prems(4) in simp)
  finally show ?case by simp
qed

lemma walk_exhausts:
  assumes "day_after cur k = Inr d"
    and "da + business_days c cur k < b"
    and "its + int k = m"
  shows "delivery_walk c b m da cur its = Inr (da + business_days c cur k, d, m)"
  using assms
proof (induction k arbitrary: cur da its)
  case 0
  then show ?case by (simp add: delivery_walk_stop)
next
  case (Suc k)
  from Suc.prems(1) obtain cur' where c: "date_add_days cur 1 = Inr cur'"
    and d: "day_after cur' k = Inr d"
    by (cases "date_add_days cur 1") auto
  let ?da' = "if \<not> skip_day c cur' then da + 1 else da"
  have bd: "?da' + business_days c cur' k = da + business_days c cur (Suc k)"
    using c by simp
  have lt: "da < b"
    using Suc.prems(2) business_days_nonneg [of c cur "Suc k"] by linarith
  have its: "its < m" using Suc.prems(3) by simp
  have "delivery_walk c b m da cur its = delivery_walk c b m ?da' cur' (its + 1)"
    by (rule delivery_walk_step [OF lt its c])
  also have "\<dots> = Inr (?da' + business_days c cur' k, d, m)"
    by (rule Suc.IH [OF d]) (use Suc.prems bd in simp_all)
  finally show ?case using bd by simp
qed

lemma walk_overflows:
  assumes "day_after cur k = Inl e"
    and "da + business_days c cur k < b"
    and "its + int k \<le> m"
  shows "delivery_walk c b m da cur its = Inl e"
  using assms
proof (induction k arbitrary: cur da its)
  case 0
  then show ?case by simp
next
  case (Suc k)
  have lt: "da < b"
    using Suc.prems(2) business_days_nonneg [of c cur "Suc k"] by linarith
  have its: "its < m" using Suc.prems(3) by simp
  show ?case
  proof (cases "date_add_days cur 1")
    case (Inl e')
    with Suc.prems(1) have "e' = e" by simp
    with Inl show ?thesis by (simp add: delivery_walk_overflow [OF lt its])
  next
    case (Inr cur')
    let ?da' = "if \<not> skip_day c cur' then da + 1 else da"
    from Suc.prems(1) Inr have d: "day_after cur' k = Inl e" by simp
    have bd: "?da' + business_days c cur' k < b"
      using Suc.prems(2) Inr by (cases "skip_day c cur'") simp_all
    have "delivery_walk c b m da cur its = delivery_walk c b m ?da' cur' (its + 1)"
      by (rule delivery_walk_step [OF lt its Inr])
    also have "\<dots> = Inl e"
      by (rule Suc.IH [OF d bd]) (use Suc.prems(3) in simp)
    finally show ?thesis .
  qed
qed

lemma calculate_delivery_date_walk:
  assumes "cache_consistent s"
  shows "fst (calculate_delivery_date s start b c mi) =
           (if b \<le> 0 then None
            else case delivery_walk c b (case mi of None \<Rightarrow> 100 | Some m \<Rightarrow> m) 0 start 0 of
                   Inl e \<Rightarrow> None
                 | Inr (da, cur, its) \<Rightarrow>
                     if its \<ge> (case mi of None \<Rightarrow> 100 | Some m \<Rightarrow> m) then None else Some cur)"
proof -
  let ?m = "case mi of None \<Rightarrow> 100 | Some m \<Rightarrow> m"
  have w: "fst (delivery_loop c b ?m s 0 start 0) = delivery_walk c b ?m 0 start 0"
    using delivery_loop_walk [OF assms] by simp
  show ?thesis
    using w
    by (cases "delivery_loop c b ?m s 0 start 0")
       (auto simp: calculate_delivery_date_def MAX_CALCULATION_ITERATIONS_def Let_def
          split: sum.splits prod.splits option.splits)
qed

section \<open>Evaluation on concrete dates\<close>

text \<open>
  Concrete dates are evaluated by rewriting, with the \<open>let\<close> chains of the date
  functions reduced from the outside in (\<open>let_weak_cong\<close>).
\<close>

lemmas date_eval = date_of_def MINYEAR_def MAXYEAR_def MAXORDINAL_def
  days_in_month_def DAYS_IN_MONTH_def is_leap_def weekday_def toordinal_def ymd2ord_def
  days_before_year_def days_before_month_def DAYS_BEFORE_MONTH_def is_sunday_def
  date_add_days_def date_diff_days_def fromordinal_def ord2ymd_def

lemmas holiday_eval = calculate_easter_def computus_def get_holy_week_dates_def
  holy_week_try_def ph_holidays_try_def major_ph_holidays_try_def sorted_set_def date_key_def

lemma ph_holidays_2025:
  "ph_holidays 2025 =
     [ymd 2025 1 1, ymd 2025 4 9, ymd 2025 4 17, ymd 2025 4 18, ymd 2025 4 19, ymd 2025 5 1,
      ymd 2025 6 12, ymd 2025 8 21, ymd 2025 8 25, ymd 2025 11 1, ymd 2025 11 30,
      ymd 2025 12 25, ymd 2025 12 30, ymd 2025 12 31]"
  by (simp add: ph_holidays_def holiday_eval date_eval cong: let_weak_cong)

lemma major_ph_holidays_2025:
  "major_ph_holidays 2025 = [ymd 2025 1 1, ymd 2025 4 17, ymd 2025 4 18, ymd 2025 12 25]"
  by (simp add: major_ph_holidays_def holiday_eval date_eval cong: let_weak_cong)

lemma december_2025_days:
  "date_add_days (ymd 2025 12 24) 1 = Inr (ymd 2025 12 25)"
  "date_add_days (ymd 2025 12 25) 1 = Inr (ymd 2025 12 26)"
  "date_add_days (ymd 2025 12 26) 1 = Inr (ymd 2025 12 27)"
  "date_add_days (ymd 2025 12 27) 1 = Inr (ymd 2025 12 28)"
  "date_add_days (ymd 2025 12 28) 1 = Inr (ymd 2025 12 29)"
  by (simp_all add: date_eval cong: let_weak_cong)

lemma december_2025_sundays:
  "is_sunday (ymd 2025 12 25) = False"
  "is_sunday (ymd 2025 12 26) = False"
  "is_sunday (ymd 2025 12 27) = False"
  "is_sunday (ymd 2025 12 28) = True"
  "is_sunday (ymd 2025 12 29) = False"
  by (simp_all add: date_eval cong: let_weak_cong)

lemma lbc_skips:
  "skip_day ''LBC'' (ymd 2025 12 25) = True"
  "skip_day ''LBC'' (ymd 2025 12 26) = False"
  "skip_day ''LBC'' (ymd 2025 12 27) = False"
  "skip_day ''LBC'' (ymd 2025 12 28) = True"
  "skip_day ''LBC'' (ymd 2025 12 29) = False"
  by (simp_all add: skip_day_def december_2025_sundays ph_holidays_2025)

lemma jt_skips:
  "skip_day ''J&T'' (ymd 2025 12 25) = True"
  "skip_day ''J&T'' (ymd 2025 12 26) = False"
  "skip_day ''J&T'' (ymd 2025 12 27) = False"
  "skip_day ''J&T'' (ymd 2025 12 28) = False"
  by (simp_all add: skip_day_def major_ph_holidays_2025)

lemma lbc_walk:
  "delivery_walk ''LBC'' 3 100 0 (ymd 2025 12 24) 0 = Inr (3, ymd 2025 12 29, 5)"
proof -
  have "delivery_walk ''LBC'' 3 100 0 (ymd 2025 12 24) 0
      = delivery_walk ''LBC'' 3 100 0 (ymd 2025 12 25) 1"
    using delivery_walk_step [OF _ _ december_2025_days(1), of 0 3 0 100 "''LBC''"]
    by (simp add: lbc_skips)
  also have "\<dots> = delivery_walk ''LBC'' 3 100 1 (ymd 2025 12 26) 2"
    using delivery_walk_step [OF _ _ december_2025_days(2), of 0 3 1 100 "''LBC''"]
    by (simp add: lbc_skips)
  also have "\<dots> = delivery_walk ''LBC'' 3 100 2 (ymd 2025 12 27) 3"
    using delivery_walk_step [OF _ _ december_2025_days(3), of 1 3 2 100 "''LBC''"]
    by (simp add: lbc_skips)
  also have "\<dots> = delivery_walk ''LBC'' 3 100 2 (ymd 2025 12 28) 4"
    using delivery_walk_step [OF _ _ december_2025_days(4), of 2 3 3 100 "''LBC''"]
    by (simp add: lbc_skips)
  also have "\<dots> = delivery_walk ''LBC'' 3 100 3 (ymd 2025 12 29) 5"
    using delivery_walk_step [OF _ _ december_2025_days(5), of 2 3 4 100 "''LBC''"]
    by (simp add: lbc_skips)
  also have "\<dots> = Inr (3, ymd 2025 12 29, 5)"
    by (simp add: delivery_walk_stop)
  finally show ?thesis .
qed

lemma jt_walk:
  "delivery_walk ''J&T'' 3 100 0 (ymd 2025 12 24) 0 = Inr (3, ymd 2025 12 28, 4)"
proof -
  have "delivery_walk ''J&T'' 3 100 0 (ymd 2025 12 24) 0
      = delivery_walk ''J&T'' 3 100 0 (ymd 2025 12 25) 1"
    using delivery_walk_step [OF _ _ december_2025_days(1), of 0 3 0 100 "''J&T''"]
    by (simp add: jt_skips)
  also have "\<dots> = delivery_walk ''J&T'' 3 100 1 (ymd 2025 12 26) 2"
    using delivery_walk_step [OF _ _ december_2025_days(2), of 0 3 1 100 "''J&T''"]
    by (simp add: jt_skips)
  also have "\<dots> = delivery_walk ''J&T'' 3 100 2 (ymd 2025 12 27) 3"
    using delivery_walk_step [OF _ _ december_2025_days(3), of 1 3 2 100 "''J&T''"]
    by (simp add: jt_skips)
  also have "\<dots> = delivery_walk ''J&T'' 3 100 3 (ymd 2025 12 28) 4"
    using delivery_walk_step [OF _ _ december_2025_days(4), of 2 3 3 100 "''J&T''"]
    by (simp add: jt_skips)
  also have "\<dots> = Inr (3, ymd 2025 12 28, 4)"
    by (simp add: delivery_walk_stop)
  finally show ?thesis .
qed

lemma diffs:
  "date_diff_days (ymd 2025 12 29) (ymd 2025 12 24) = 5"
  "date_diff_days (ymd 2025 12 28) (ymd 2025 12 24) = 4"
  "weekday (ymd 2025 12 24) = 2"
  by (simp_all add: date_eval cong: let_weak_cong)

section \<open>Properties of the cutoff check\<close>






section \<open>Properties of the confidence label\<close>

lemma ratio_le_iff:
  fixes t b n d :: int
  assumes "0 < b" "0 < d"
  shows "(of_int t / of_int b :: rat) \<le> of_int n / of_int d \<longleftrightarrow> t * d \<le> n * b"
proof -
  have "(of_int t / of_int b :: rat) \<le> of_int n / of_int d
          \<longleftrightarrow> (of_int t :: rat) * of_int d \<le> of_int n * of_int b"
    using assms by (simp add: field_simps)
  also have "\<dots> \<longleftrightarrow> (of_int (t * d) :: rat) \<le> of_int (n * b)"
    by simp
  also have "\<dots> \<longleftrightarrow> t * d \<le> n * b"
    by (rule of_int_le_iff)
  finally show ?thesis .
qed

text \<open>
  Below \<open>2^52\<close> the denominator is too small for a quotient to fall strictly between
  a threshold and the midpoint above it: the rounded comparison is the exact one.
\<close>

lemma rounds_to_at_most_1_5_exact:
  assumes "0 < b" "b < 2 ^ 52"
  shows "rounds_to_at_most_1_5 (of_int t / of_int b) \<longleftrightarrow> (of_int t / of_int b :: rat) \<le> 3 / 2"
proof -
  have c: "(3 / 2 + 1 / 2 ^ 53 :: rat) = of_int (3 * 2 ^ 52 + 1) / of_int (2 ^ 53)"
    by simp
  have "rounds_to_at_most_1_5 (of_int t / of_int b) \<longleftrightarrow> t * 2 ^ 53 \<le> (3 * 2 ^ 52 + 1) * b"
    unfolding rounds_to_at_most_1_5_def c using assms(1) by (subst ratio_le_iff) simp_all
  also have "\<dots> \<longleftrightarrow> t * 2 \<le> 3 * b"
    using assms by simp linarith
  also have "\<dots> \<longleftrightarrow> (of_int t / of_int b :: rat) \<le> of_int 3 / of_int 2"
    using assms(1) by (subst ratio_le_iff) simp_all
  finally show ?thesis by simp
qed

lemma rounds_to_at_most_2_0_exact:
  assumes "0 < b" "b < 2 ^ 52"
  shows "rounds_to_at_most_2_0 (of_int t / of_int b) \<longleftrightarrow> (of_int t / of_int b :: rat) \<le> 2"
proof -
  have c: "(2 + 1 / 2 ^ 52 :: rat) = of_int (2 * 2 ^ 52 + 1) / of_int (2 ^ 52)"
    by simp
  have "rounds_to_at_most_2_0 (of_int t / of_int b) \<longleftrightarrow> t * 2 ^ 52 \<le> (2 * 2 ^ 52 + 1) * b"
    unfolding rounds_to_at_most_2_0_def c using assms(1) by (subst ratio_le_iff) simp_all
  also have "\<dots> \<longleftrightarrow> t * 1 \<le> 2 * b"
    using assms by simp linarith
  also have "\<dots> \<longleftrightarrow> (of_int t / of_int b :: rat) \<le> of_int 2 / of_int 1"
    using assms(1) by (subst ratio_le_iff) simp_all
  finally show ?thesis by simp
qed

lemma quotient_in_double_range:
  assumes "0 < b" "\<bar>t\<bar> < 2 ^ 1023"
  shows "\<not> \<bar>of_int t / of_int b :: rat\<bar> \<ge> double_overflow"
proof -
  have "\<bar>of_int t / of_int b :: rat\<bar> = of_int \<bar>t\<bar> / of_int b"
    using assms(1) by simp
  also have "\<dots> \<le> of_int \<bar>t\<bar>"
    using assms(1) by (simp add: divide_le_eq mult_le_cancel_left1)
  also have "\<dots> < 2 ^ 1023"
    using assms(2) by (metis of_int_less_iff of_int_numeral of_int_power)
  also have "\<dots> < (double_overflow :: rat)"
    by (simp add: double_overflow_def)
  finally show ?thesis by simp
qed

lemma confidence_examples:
  "get_delivery_confidence 3 4 c = ''high''"
  "get_delivery_confidence 3 5 c = ''medium''"
  "get_delivery_confidence 3 7 c = ''low''"
  "get_delivery_confidence 1 (2 ^ 1024) c = ''medium''"
  by (simp_all add: get_delivery_confidence_def double_overflow_def rounds_to_at_most_1_5_def
      rounds_to_at_most_2_0_def)

section \<open>Properties of the configuration cache\<close>

lemma get_config_fetch_eq:
  "get_config_fetch env t s =
     (case fetched_config env of
        Inr config \<Rightarrow>
          (Inr (Some config),
           s\<lparr>cache := Some config, cache_time := Some t, fetch_in_progress := False\<rparr>)
      | Inl e \<Rightarrow>
          ((case cache s of Some stale \<Rightarrow> Inr (Some stale) | None \<Rightarrow> Inl e),
           s\<lparr>fetch_in_progress := False\<rparr>))"
  by (auto simp: get_config_fetch_def fetched_config_def on_exception_def on_invalid_def Let_def
      split: sum.splits option.splits)

text \<open>The four ways a refresh fails.\<close>

lemma fetched_config_failure_cases:
  "fetched_config env = Inl e \<longleftrightarrow>
     sheet_data env = Inl e \<or>
     (sheet_data env = Inr [] \<and> e = ValueError) \<or>
     (\<exists>rows. sheet_data env = Inr rows \<and> rows \<noteq> [] \<and>
        (parse_to_config (json_loads env) rows = Inl e \<or>
         (\<exists>config. parse_to_config (json_loads env) rows = Inr config \<and>
            \<not> validate_config (known_timezone env) config \<and> e = ValueError)))"
  by (auto simp: fetched_config_def split: sum.splits if_splits)

lemma get_config_locked_None_iff:
  "fst (get_config_locked t s force_refresh) = None \<longleftrightarrow>
     \<not> fetch_in_progress s \<and>
     (force_refresh \<or> cache s = None \<or>
      (case cache_time s of None \<Rightarrow> True | Some t0 \<Rightarrow> \<not> t - t0 < of_int (cache_ttl s)))"
  by (auto simp: get_config_locked_def split: option.splits)

lemma get_config_locked_None:
  assumes "fst (get_config_locked t s force_refresh) = None"
  shows "get_config_locked t s force_refresh = (None, s\<lparr>fetch_in_progress := True\<rparr>)"
  using assms by (auto simp: get_config_locked_def split: if_splits)

lemma get_config_refresh:
  assumes "fst (get_config_locked (time_now env) s force_refresh) = None"
  shows "get_config env s force_refresh =
     (case fetched_config env of
        Inr config \<Rightarrow>
          (Inr (Some config), 1,
           s\<lparr>cache := Some config, cache_time := Some (time_now env), fetch_in_progress := False\<rparr>)
      | Inl e \<Rightarrow>
          ((case cache s of Some stale \<Rightarrow> Inr (Some stale) | None \<Rightarrow> Inl e), 1,
           s\<lparr>fetch_in_progress := False\<rparr>))"
  by (simp add: get_config_def get_config_locked_None [OF assms] get_config_fetch_eq
      split: sum.splits)







section \<open>Claims about the holiday calculator\<close>

lemma easter_check_1900_1949: "list_all easter_check [1900..1949]"
  by (simp add: upto_rec_numeral easter_check_def computus_def date_eval cong: let_weak_cong)

lemma easter_check_1950_1999: "list_all easter_check [1950..1999]"
  by (simp add: upto_rec_numeral easter_check_def computus_def date_eval cong: let_weak_cong)

lemma easter_check_2000_2049: "list_all easter_check [2000..2049]"
  by (simp add: upto_rec_numeral easter_check_def computus_def date_eval cong: let_weak_cong)

lemma easter_check_2050_2100: "list_all easter_check [2050..2100]"
  by (simp add: upto_rec_numeral easter_check_def computus_def date_eval cong: let_weak_cong)

lemma list_all_uptoD: "list_all P [a..b] \<Longrightarrow> a \<le> y \<Longrightarrow> y \<le> b \<Longrightarrow> P y"
  by (simp add: list_all_iff)

lemma easter_check_range:
  assumes "1900 \<le> Y" "Y \<le> 2100"
  shows "easter_check Y"
proof -
  consider "Y \<le> 1949" | "1950 \<le> Y" "Y \<le> 1999" | "2000 \<le> Y" "Y \<le> 2049" | "2050 \<le> Y"
    by linarith
  then show ?thesis
  proof cases
    case 1
    then show ?thesis using list_all_uptoD [OF easter_check_1900_1949] assms by simp
  next
    case 2
    then show ?thesis using list_all_uptoD [OF easter_check_1950_1999] by simp
  next
    case 3
    then show ?thesis using list_all_uptoD [OF easter_check_2000_2049] by simp
  next
    case 4
    then show ?thesis using list_all_uptoD [OF easter_check_2050_2100] assms by simp
  qed
qed

text \<open>
  C5. For every year from 1900 to 2100 \<open>_calculate_easter\<close> returns a date of that
  year that is a Sunday (\<open>weekday() = 6\<close>), and \<open>_get_holy_week_dates\<close> returns
  exactly three dates, whose ordinals are 3, 2 and 1 below Easter's: Maundy Thursday,
  Good Friday and Black Saturday.
\<close>

theorem easter_is_sunday_and_holy_week_precedes:
  assumes "1900 \<le> Y" and "Y \<le> 2100"
  shows "\<exists>e a b c.
           calculate_easter Y = Inr e \<and> year e = Y \<and> is_sunday e \<and>
           get_holy_week_dates Y = [a, b, c] \<and>
           toordinal a = toordinal e - 3 \<and>
           toordinal b = toordinal e - 2 \<and>
           toordinal c = toordinal e - 1 \<and>
           map weekday [a, b, c] = [3, 4, 5]"
proof -
  have chk: "easter_check Y" by (rule easter_check_range [OF assms])
  then obtain e where e: "computus Y = Inr e"
    by (cases "computus Y") (simp_all add: easter_check_def)
  define n where "n = toordinal e"
  from chk e have yr: "year e = Y" and n: "3 < n" "n \<le> MAXORDINAL" "(n + 6) mod 7 = 6"
    by (simp_all add: easter_check_def Let_def n_def)
  have easter: "calculate_easter Y = Inr e"
    by (simp add: calculate_easter_def e)
  define a where "a = fromordinal (n - 3)"
  define b where "b = fromordinal (n - 2)"
  define c where "c = fromordinal (n - 1)"
  have add: "date_add_days e (- 3) = Inr a" "date_add_days e (- 2) = Inr b"
    "date_add_days e (- 1) = Inr c"
    using n by (simp_all add: date_add_days_Inr_iff a_def b_def c_def n_def)
  have hw: "get_holy_week_dates Y = [a, b, c]"
    by (simp add: get_holy_week_dates_def holy_week_try_def easter add)
  have ords: "toordinal a = n - 3" "toordinal b = n - 2" "toordinal c = n - 1"
    by (simp_all add: a_def b_def c_def toordinal_fromordinal)
  have sunday: "is_sunday e"
    using n by (simp add: is_sunday_def weekday_def n_def)
  have "(n - 3 + 6) mod 7 = 3" "(n - 2 + 6) mod 7 = 4" "(n - 1 + 6) mod 7 = 5"
    using n(3) by presburger+
  then have days: "map weekday [a, b, c] = [3, 4, 5]"
    by (simp add: weekday_def ords)
  show ?thesis
    using easter yr sunday hw ords days by (simp add: n_def)
qed

theorem easter_is_sunday_and_holy_week_precedes_witness:
  "(1900::int) \<le> 2025 \<and> (2025::int) \<le> 2100 \<and>
   calculate_easter 2025 = Inr (ymd 2025 4 20) \<and> is_sunday (ymd 2025 4 20) \<and>
   get_holy_week_dates 2025 = [ymd 2025 4 17, ymd 2025 4 18, ymd 2025 4 19] \<and>
   toordinal (ymd 2025 4 17) = toordinal (ymd 2025 4 20) - 3"
proof -
  have e: "calculate_easter 2025 = Inr (ymd 2025 4 20)"
    by (simp add: holiday_eval date_eval cong: let_weak_cong)
  from easter_is_sunday_and_holy_week_precedes [of 2025] e
  obtain a b c where "is_sunday (ymd 2025 4 20)"
    and hw: "get_holy_week_dates 2025 = [a, b, c]"
    and "toordinal a = toordinal (ymd 2025 4 20) - 3"
    by auto
  moreover have "get_holy_week_dates 2025 = [ymd 2025 4 17, ymd 2025 4 18, ymd 2025 4 19]"
    by (simp add: holiday_eval date_eval cong: let_weak_cong)
  ultimately show ?thesis using e by simp
qed

text \<open>
  C7. In every reachable state and for every year \<open>Y\<close>, the list returned by
  \<open>get_ph_holidays\<close> is strictly ascending in the order of dates (sorted, no
  duplicates); every date returned by \<open>get_major_ph_holidays\<close> (in any reachable
  state) is in it; a second call, in the state the first one leaves, returns the same
  list and leaves the caches as they are; and the list is the same in every reachable
  state.
\<close>

theorem holidays_sorted_distinct_major_subset_memoized:
  assumes "reachable s" and "reachable s'"
  shows "sorted_wrt (\<lambda>a b. date_key a < date_key b) (fst (get_ph_holidays s Y)) \<and>
         distinct (fst (get_ph_holidays s Y)) \<and>
         set (fst (get_major_ph_holidays s' Y)) \<subseteq> set (fst (get_ph_holidays s Y)) \<and>
         get_ph_holidays (snd (get_ph_holidays s Y)) Y
           = (fst (get_ph_holidays s Y), snd (get_ph_holidays s Y)) \<and>
         fst (get_ph_holidays s' Y) = fst (get_ph_holidays s Y)"
proof -
  have cs: "cache_consistent s" and cs': "cache_consistent s'"
    using assms by (simp_all add: reachable_consistent)
  have all_eq: "fst (get_ph_holidays s Y) = ph_holidays Y"
    and all_eq': "fst (get_ph_holidays s' Y) = ph_holidays Y"
    and major_eq: "fst (get_major_ph_holidays s' Y) = major_ph_holidays Y"
    by (simp_all add: get_ph_holidays_consistent [OF cs] get_ph_holidays_consistent [OF cs']
        get_major_ph_holidays_consistent [OF cs'])
  have again: "get_ph_holidays (snd (get_ph_holidays s Y)) Y
                 = (fst (get_ph_holidays s Y), snd (get_ph_holidays s Y))"
    by (auto simp: get_ph_holidays_def split: option.splits sum.splits)
  show ?thesis
    using ph_sorted [of Y] ph_distinct [of Y] major_subset [of Y] again
    by (simp add: all_eq all_eq' major_eq)
qed

theorem holidays_sorted_distinct_major_subset_memoized_witness:
  "reachable initial_holiday_state \<and>
   fst (get_ph_holidays initial_holiday_state 2025) = ph_holidays 2025 \<and>
   ph_holidays 2025 =
     [ymd 2025 1 1, ymd 2025 4 9, ymd 2025 4 17, ymd 2025 4 18, ymd 2025 4 19, ymd 2025 5 1,
      ymd 2025 6 12, ymd 2025 8 21, ymd 2025 8 25, ymd 2025 11 1, ymd 2025 11 30,
      ymd 2025 12 25, ymd 2025 12 30, ymd 2025 12 31] \<and>
   sorted_wrt (\<lambda>a b. date_key a < date_key b) (fst (get_ph_holidays initial_holiday_state 2025)) \<and>
   distinct (fst (get_ph_holidays initial_holiday_state 2025)) \<and>
   set (fst (get_major_ph_holidays initial_holiday_state 2025))
     \<subseteq> set (fst (get_ph_holidays initial_holiday_state 2025)) \<and>
   fst (get_ph_holidays (snd (get_ph_holidays initial_holiday_state 2025)) 2025)
     = fst (get_ph_holidays initial_holiday_state 2025)"
  using holidays_sorted_distinct_major_subset_memoized
          [OF reachable_initial reachable_initial, of 2025]
        get_ph_holidays_consistent(1) [OF reachable_consistent [OF reachable_initial], of 2025]
        ph_holidays_2025 reachable_initial
  by simp

section \<open>Claims about the delivery date\<close>

lemma calculate_delivery_date_by_walk:
  assumes "reachable s"
  shows "fst (calculate_delivery_date s start b c mi) =
           (if b \<le> 0 then None
            else case delivery_walk c b (iteration_bound mi) 0 start 0 of
                   Inl e \<Rightarrow> None
                 | Inr (da, cur, its) \<Rightarrow>
                     if its \<ge> iteration_bound mi then None else Some cur)"
  unfolding iteration_bound_def MAX_CALCULATION_ITERATIONS_def
  by (rule calculate_delivery_date_walk [OF reachable_consistent [OF assms]])

lemma december_2025_walks:
  "day_after (ymd 2025 12 24) 5 = Inr (ymd 2025 12 29)"
  "day_after (ymd 2025 12 24) 4 = Inr (ymd 2025 12 28)"
  "business_days ''LBC'' (ymd 2025 12 24) 5 = 3"
  "business_days ''LBC'' (ymd 2025 12 24) 4 = 2"
  "business_days ''J&T'' (ymd 2025 12 24) 4 = 3"
  "day_after (ymd 2025 12 25) 1 = Inr (ymd 2025 12 26)"
  "business_days ''LBC'' (ymd 2025 12 25) 1 = 1"
  by (simp_all add: eval_nat_numeral december_2025_days lbc_skips jt_skips)

lemma last_day_overflows:
  "date_add_days (ymd 9999 12 31) 1 = Inl OverflowError"
  "day_after (ymd 9999 12 31) 1 = Inl OverflowError"
  "business_days c (ymd 9999 12 31) 1 = 0"
proof -
  show "date_add_days (ymd 9999 12 31) 1 = Inl OverflowError"
    by (simp add: date_eval cong: let_weak_cong)
  then show "day_after (ymd 9999 12 31) 1 = Inl OverflowError"
    "business_days c (ymd 9999 12 31) 1 = 0"
    by simp_all
qed

text \<open>
  C2. From 2025-12-24 (a Wednesday) with three business days, courier LBC, and the
  default bound: the result is 2025-12-29, the loop ends with \<open>days_added = 3\<close> after 5
  advances, and the five days are skipped, counted, counted, skipped, counted:
  2025-12-25 is a holiday and not a Sunday, 2025-12-28 is a Sunday and not a holiday.
\<close>

theorem lbc_three_days_from_2025_12_24:
  assumes "reachable s"
  shows "fst (calculate_delivery_date s (ymd 2025 12 24) 3 ''LBC'' None) = Some (ymd 2025 12 29) \<and>
         fst (delivery_loop ''LBC'' 3 MAX_CALCULATION_ITERATIONS s 0 (ymd 2025 12 24) 0)
           = Inr (3, ymd 2025 12 29, 5) \<and>
         date_diff_days (ymd 2025 12 29) (ymd 2025 12 24) = 5 \<and>
         map (\<lambda>d. fst (should_skip_date s ''LBC'' d))
           [ymd 2025 12 25, ymd 2025 12 26, ymd 2025 12 27, ymd 2025 12 28, ymd 2025 12 29]
           = [True, False, False, True, False] \<and>
         fst (is_holiday s (ymd 2025 12 25) False) \<and> \<not> is_sunday (ymd 2025 12 25) \<and>
         is_sunday (ymd 2025 12 28) \<and> \<not> fst (is_holiday s (ymd 2025 12 28) False) \<and>
         weekday (ymd 2025 12 24) = 2"
proof -
  have cs: "cache_consistent s" by (rule reachable_consistent [OF assms])
  have "fst (calculate_delivery_date s (ymd 2025 12 24) 3 ''LBC'' None) = Some (ymd 2025 12 29)"
    by (simp add: calculate_delivery_date_by_walk [OF assms] iteration_bound_def
        MAX_CALCULATION_ITERATIONS_def lbc_walk)
  moreover have "fst (delivery_loop ''LBC'' 3 MAX_CALCULATION_ITERATIONS s 0 (ymd 2025 12 24) 0)
           = Inr (3, ymd 2025 12 29, 5)"
    using delivery_loop_walk [OF cs, of "''LBC''" 3 100 0 "ymd 2025 12 24" 0]
    by (simp add: MAX_CALCULATION_ITERATIONS_def lbc_walk)
  moreover have "map (\<lambda>d. fst (should_skip_date s ''LBC'' d))
           [ymd 2025 12 25, ymd 2025 12 26, ymd 2025 12 27, ymd 2025 12 28, ymd 2025 12 29]
           = [True, False, False, True, False]"
    by (simp add: should_skip_date_consistent [OF cs] lbc_skips)
  moreover have "fst (is_holiday s (ymd 2025 12 25) False)"
    "\<not> fst (is_holiday s (ymd 2025 12 28) False)"
    by (simp_all add: is_holiday_consistent [OF cs] ph_holidays_2025)
  ultimately show ?thesis
    by (simp add: diffs december_2025_sundays)
qed

theorem lbc_three_days_from_2025_12_24_witness:
  "reachable initial_holiday_state \<and>
   fst (calculate_delivery_date initial_holiday_state (ymd 2025 12 24) 3 ''LBC'' None)
     = Some (ymd 2025 12 29) \<and>
   fst (delivery_loop ''LBC'' 3 100 initial_holiday_state 0 (ymd 2025 12 24) 0)
     = Inr (3, ymd 2025 12 29, 5)"
  using lbc_three_days_from_2025_12_24 [OF reachable_initial] reachable_initial
  by (simp add: MAX_CALCULATION_ITERATIONS_def)

text \<open>
  C3. The same start and count with courier J&T: the result is 2025-12-28 after 4
  advances. 2025-12-25 is skipped as a major holiday; 2025-12-26, 2025-12-27 and
  2025-12-28 are counted, and 2025-12-28 is a Sunday.
\<close>

theorem jt_three_days_from_2025_12_24:
  assumes "reachable s"
  shows "fst (calculate_delivery_date s (ymd 2025 12 24) 3 ''J&T'' None) = Some (ymd 2025 12 28) \<and>
         fst (delivery_loop ''J&T'' 3 MAX_CALCULATION_ITERATIONS s 0 (ymd 2025 12 24) 0)
           = Inr (3, ymd 2025 12 28, 4) \<and>
         date_diff_days (ymd 2025 12 28) (ymd 2025 12 24) = 4 \<and>
         map (\<lambda>d. fst (should_skip_date s ''J&T'' d))
           [ymd 2025 12 25, ymd 2025 12 26, ymd 2025 12 27, ymd 2025 12 28]
           = [True, False, False, False] \<and>
         fst (is_holiday s (ymd 2025 12 25) True) \<and>
         is_sunday (ymd 2025 12 28)"
proof -
  have cs: "cache_consistent s" by (rule reachable_consistent [OF assms])
  have "fst (calculate_delivery_date s (ymd 2025 12 24) 3 ''J&T'' None) = Some (ymd 2025 12 28)"
    by (simp add: calculate_delivery_date_by_walk [OF assms] iteration_bound_def
        MAX_CALCULATION_ITERATIONS_def jt_walk)
  moreover have "fst (delivery_loop ''J&T'' 3 MAX_CALCULATION_ITERATIONS s 0 (ymd 2025 12 24) 0)
           = Inr (3, ymd 2025 12 28, 4)"
    using delivery_loop_walk [OF cs, of "''J&T''" 3 100 0 "ymd 2025 12 24" 0]
    by (simp add: MAX_CALCULATION_ITERATIONS_def jt_walk)
  moreover have "map (\<lambda>d. fst (should_skip_date s ''J&T'' d))
           [ymd 2025 12 25, ymd 2025 12 26, ymd 2025 12 27, ymd 2025 12 28]
           = [True, False, False, False]"
    by (simp add: should_skip_date_consistent [OF cs] jt_skips)
  moreover have "fst (is_holiday s (ymd 2025 12 25) True)"
    by (simp add: is_holiday_consistent [OF cs] major_ph_holidays_2025)
  ultimately show ?thesis
    by (simp add: diffs december_2025_sundays)
qed

theorem jt_three_days_from_2025_12_24_witness:
  "reachable initial_holiday_state \<and>
   fst (calculate_delivery_date initial_holiday_state (ymd 2025 12 24) 3 ''J&T'' None)
     = Some (ymd 2025 12 28) \<and>
   fst (delivery_loop ''J&T'' 3 100 initial_holiday_state 0 (ymd 2025 12 24) 0)
     = Inr (3, ymd 2025 12 28, 4)"
  using jt_three_days_from_2025_12_24 [OF reachable_initial] reachable_initial
  by (simp add: MAX_CALCULATION_ITERATIONS_def)

text \<open>
  The loop guard lets the loop make \<open>max_iterations\<close> advances, and the test after the
  loop rejects every run that made that many: a run whose counter reaches \<open>base_days\<close>
  exactly on the last permitted advance returns \<open>None\<close>.
\<close>

lemma calculate_delivery_date_at_bound:
  assumes "reachable s" "0 < base_days"
    and "day_after start (Suc k) = Inr d" "\<not> skip_day c d"
    and "business_days c start (Suc k) = base_days"
    and "int (Suc k) = iteration_bound mi"
  shows "fst (calculate_delivery_date s start base_days c mi) = None"
proof -
  have "delivery_walk c base_days (iteration_bound mi) 0 start 0
          = Inr (base_days, d, 0 + int (Suc k))"
    by (rule walk_reaches [OF assms(3,4)]) (use assms(5,6) in simp_all)
  then show ?thesis
    using assms(2,6) by (simp add: calculate_delivery_date_by_walk [OF assms(1)])
qed

text \<open>
  C1 as stated fails on the code. With \<open>base_days = 1\<close> and \<open>max_iterations = 1\<close> from
  2025-12-25, the one advance reaches 2025-12-26, which LBC counts, so the counter
  reaches \<open>base_days\<close> within the bound, and the result is \<open>None\<close>. From 9999-12-31
  the first advance raises \<open>OverflowError\<close>: the result is \<open>None\<close> although
  \<open>base_days\<close> is positive and no advance was made.
\<close>

theorem calculate_delivery_date_fails_at_bound_and_at_last_date:
  "day_after (ymd 2025 12 25) 1 = Inr (ymd 2025 12 26) \<and>
   business_days ''LBC'' (ymd 2025 12 25) 1 = 1 \<and>
   fst (calculate_delivery_date initial_holiday_state (ymd 2025 12 25) 1 ''LBC'' (Some 1)) = None \<and>
   date_add_days (ymd 9999 12 31) 1 = Inl OverflowError \<and>
   fst (calculate_delivery_date initial_holiday_state (ymd 9999 12 31) 1 ''LBC'' (Some 100)) = None"
proof -
  have "fst (calculate_delivery_date initial_holiday_state (ymd 2025 12 25) 1 ''LBC'' (Some 1)) = None"
    by (rule calculate_delivery_date_at_bound [OF reachable_initial, where k = 0 and d = "ymd 2025 12 26"])
       (simp_all add: december_2025_days lbc_skips iteration_bound_def)
  moreover have "delivery_walk ''LBC'' 1 100 0 (ymd 9999 12 31) 0 = Inl OverflowError"
    by (rule delivery_walk_overflow) (simp_all add: last_day_overflows)
  then have "fst (calculate_delivery_date initial_holiday_state (ymd 9999 12 31) 1 ''LBC'' (Some 100)) = None"
    by (simp add: calculate_delivery_date_by_walk [OF reachable_initial] iteration_bound_def)
  ultimately show ?thesis
    using december_2025_walks(6,7) last_day_overflows(1) by blast
qed

text \<open>
  C1, amended. In every reachable state \<open>calculate_delivery_date\<close> returns \<open>None\<close>
  when \<open>base_days \<le> 0\<close>; when the bound is not positive; when the bound's advances
  have all been made and the counter is still below \<open>base_days\<close>; and when an advance
  leaves the calendar (past 9999-12-31) before the counter has reached \<open>base_days\<close>.
  It returns the date of the advance on which the counter reaches \<open>base_days\<close> whenever
  that advance comes before the last one the bound permits.
\<close>

theorem calculate_delivery_date_outcomes:
  assumes "reachable s"
  shows "(base_days \<le> 0 \<longrightarrow> fst (calculate_delivery_date s start base_days c mi) = None) \<and>
         (iteration_bound mi \<le> 0 \<longrightarrow>
            fst (calculate_delivery_date s start base_days c mi) = None) \<and>
         (0 < base_days \<and> day_after start k = Inr d \<and> business_days c start k < base_days \<and>
          int k = iteration_bound mi \<longrightarrow>
            fst (calculate_delivery_date s start base_days c mi) = None) \<and>
         (0 < base_days \<and> day_after start k = Inl e \<and> business_days c start k < base_days \<and>
          int k \<le> iteration_bound mi \<longrightarrow>
            fst (calculate_delivery_date s start base_days c mi) = None) \<and>
         (0 < base_days \<and> day_after start (Suc k) = Inr d \<and> \<not> skip_day c d \<and>
          business_days c start (Suc k) = base_days \<and> int (Suc k) < iteration_bound mi \<longrightarrow>
            fst (calculate_delivery_date s start base_days c mi) = Some d)"
proof (intro conjI impI)
  assume "base_days \<le> 0"
  then show "fst (calculate_delivery_date s start base_days c mi) = None"
    by (simp add: calculate_delivery_date_by_walk [OF assms])
next
  assume m: "iteration_bound mi \<le> 0"
  have "delivery_walk c base_days (iteration_bound mi) 0 start 0 = Inr (0, start, 0)"
    by (rule delivery_walk_stop) (use m in simp)
  then show "fst (calculate_delivery_date s start base_days c mi) = None"
    using m by (simp add: calculate_delivery_date_by_walk [OF assms])
next
  assume a: "0 < base_days \<and> day_after start k = Inr d \<and> business_days c start k < base_days \<and>
          int k = iteration_bound mi"
  have "delivery_walk c base_days (iteration_bound mi) 0 start 0
          = Inr (0 + business_days c start k, d, iteration_bound mi)"
    by (rule walk_exhausts) (use a in simp_all)
  then show "fst (calculate_delivery_date s start base_days c mi) = None"
    by (simp add: calculate_delivery_date_by_walk [OF assms])
next
  assume a: "0 < base_days \<and> day_after start k = Inl e \<and> business_days c start k < base_days \<and>
          int k \<le> iteration_bound mi"
  have "delivery_walk c base_days (iteration_bound mi) 0 start 0 = Inl e"
    by (rule walk_overflows [where k = k]) (use a in simp_all)
  then show "fst (calculate_delivery_date s start base_days c mi) = None"
    by (simp add: calculate_delivery_date_by_walk [OF assms])
next
  assume a: "0 < base_days \<and> day_after start (Suc k) = Inr d \<and> \<not> skip_day c d \<and>
          business_days c start (Suc k) = base_days \<and> int (Suc k) < iteration_bound mi"
  have "delivery_walk c base_days (iteration_bound mi) 0 start 0
          = Inr (base_days, d, 0 + int (Suc k))"
    by (rule walk_reaches) (use a in simp_all)
  then show "fst (calculate_delivery_date s start base_days c mi) = Some d"
    using a by (simp add: calculate_delivery_date_by_walk [OF assms])
qed

theorem calculate_delivery_date_outcomes_witness:
  "reachable initial_holiday_state \<and>
   fst (calculate_delivery_date initial_holiday_state (ymd 2025 12 24) 0 ''LBC'' None) = None \<and>
   fst (calculate_delivery_date initial_holiday_state (ymd 2025 12 24) 3 ''LBC'' (Some 0)) = None \<and>
   day_after (ymd 2025 12 24) 4 = Inr (ymd 2025 12 28) \<and>
   business_days ''LBC'' (ymd 2025 12 24) 4 = 2 \<and>
   fst (calculate_delivery_date initial_holiday_state (ymd 2025 12 24) 3 ''LBC'' (Some 4)) = None \<and>
   day_after (ymd 9999 12 31) 1 = Inl OverflowError \<and>
   fst (calculate_delivery_date initial_holiday_state (ymd 9999 12 31) 1 ''LBC'' None) = None \<and>
   day_after (ymd 2025 12 24) 5 = Inr (ymd 2025 12 29) \<and>
   \<not> skip_day ''LBC'' (ymd 2025 12 29) \<and>
   business_days ''LBC'' (ymd 2025 12 24) 5 = 3 \<and>
   fst (calculate_delivery_date initial_holiday_state (ymd 2025 12 24) 3 ''LBC'' None)
     = Some (ymd 2025 12 29)"
proof -
  note o = calculate_delivery_date_outcomes [OF reachable_initial]
  have "fst (calculate_delivery_date initial_holiday_state (ymd 2025 12 24) 0 ''LBC'' None) = None"
    using o [where base_days = 0 and start = "ymd 2025 12 24" and c = "''LBC''" and mi = None]
    by simp
  moreover have "fst (calculate_delivery_date initial_holiday_state (ymd 2025 12 24) 3 ''LBC'' (Some 0)) = None"
    using o [where base_days = 3 and start = "ymd 2025 12 24" and c = "''LBC''" and mi = "Some 0"]
    by (simp add: iteration_bound_def)
  moreover have "fst (calculate_delivery_date initial_holiday_state (ymd 2025 12 24) 3 ''LBC'' (Some 4)) = None"
    using o [where base_days = 3 and start = "ymd 2025 12 24" and c = "''LBC''" and mi = "Some 4"
        and k = 4 and d = "ymd 2025 12 28"] december_2025_walks(2,4)
    by (simp add: iteration_bound_def)
  moreover have "fst (calculate_delivery_date initial_holiday_state (ymd 9999 12 31) 1 ''LBC'' None) = None"
    using o [where base_days = 1 and start = "ymd 9999 12 31" and c = "''LBC''" and mi = None
        and k = 1 and e = OverflowError] last_day_overflows(2) last_day_overflows(3) [of "''LBC''"]
    by (simp add: iteration_bound_def MAX_CALCULATION_ITERATIONS_def)
  moreover have five: "day_after (ymd 2025 12 24) (Suc 4) = Inr (ymd 2025 12 29)"
    "business_days ''LBC'' (ymd 2025 12 24) (Suc 4) = 3"
    using december_2025_walks(1,3) by (simp_all add: eval_nat_numeral)
  have "fst (calculate_delivery_date initial_holiday_state (ymd 2025 12 24) 3 ''LBC'' None)
     = Some (ymd 2025 12 29)"
    using o [where base_days = 3 and start = "ymd 2025 12 24" and c = "''LBC''" and mi = None
        and k = 4 and d = "ymd 2025 12 29"] five lbc_skips(5)
    by (simp add: iteration_bound_def MAX_CALCULATION_ITERATIONS_def)
  moreover note december_2025_walks(1,2,3,4) last_day_overflows(2) lbc_skips(5) reachable_initial
  ultimately show ?thesis by blast
qed

section \<open>Claims about the cutoff check and the confidence label\<close>


text \<open>
  C8 as stated fails on the code: with \<open>base_days = 1\<close> and
  \<open>total_calendar_days = 2^1024\<close> the ratio is above 2.0, the division raises
  \<open>OverflowError\<close>, and the handler returns \<open>"medium"\<close>, not \<open>"low"\<close>.
\<close>

theorem get_delivery_confidence_medium_on_overflow:
  "get_delivery_confidence 1 (2 ^ 1024) ''LBC'' = ''medium'' \<and>
   \<not> (of_int (2 ^ 1024) / of_int 1 :: rat) \<le> 2"
  using confidence_examples(4) [of "''LBC''"] by simp

text \<open>
  C8, amended. \<open>get_delivery_confidence\<close> returns \<open>"high"\<close> when \<open>base_days\<close> is not
  positive (the ratio is then 1). For \<open>0 < base_days < 2^52\<close> and
  \<open>|total_calendar_days| < 2^1023\<close> it returns \<open>"high"\<close> when
  \<open>total_calendar_days / base_days \<le> 1.5\<close>, \<open>"medium"\<close> when the ratio is above 1.5 and
  at most 2.0, and \<open>"low"\<close> otherwise; so for \<open>base_days = 3\<close> it returns \<open>"high"\<close> at 4,
  \<open>"medium"\<close> at 5 and \<open>"low"\<close> at 7. When the quotient is too large for a double, the
  result is \<open>"medium"\<close>.
\<close>

theorem get_delivery_confidence_by_ratio:
  "(base_days \<le> 0 \<longrightarrow> get_delivery_confidence base_days total_calendar_days c = ''high'') \<and>
   (0 < base_days \<and> base_days < 2 ^ 52 \<and> \<bar>total_calendar_days\<bar> < 2 ^ 1023 \<longrightarrow>
      get_delivery_confidence base_days total_calendar_days c =
        (if (of_int total_calendar_days / of_int base_days :: rat) \<le> 3 / 2 then ''high''
         else if (of_int total_calendar_days / of_int base_days :: rat) \<le> 2 then ''medium''
         else ''low'')) \<and>
   (0 < base_days \<and>
    double_overflow \<le> \<bar>of_int total_calendar_days / of_int base_days :: rat\<bar> \<longrightarrow>
      get_delivery_confidence base_days total_calendar_days c = ''medium'') \<and>
   get_delivery_confidence 3 4 c = ''high'' \<and>
   get_delivery_confidence 3 5 c = ''medium'' \<and>
   get_delivery_confidence 3 7 c = ''low''"
proof (intro conjI impI)
  assume "base_days \<le> 0"
  then show "get_delivery_confidence base_days total_calendar_days c = ''high''"
    by (simp add: get_delivery_confidence_def)
next
  assume a: "0 < base_days \<and> base_days < 2 ^ 52 \<and> \<bar>total_calendar_days\<bar> < 2 ^ 1023"
  then have b: "0 < base_days" "base_days < 2 ^ 52" and t: "\<bar>total_calendar_days\<bar> < 2 ^ 1023"
    by simp_all
  show "get_delivery_confidence base_days total_calendar_days c =
        (if (of_int total_calendar_days / of_int base_days :: rat) \<le> 3 / 2 then ''high''
         else if (of_int total_calendar_days / of_int base_days :: rat) \<le> 2 then ''medium''
         else ''low'')"
    using quotient_in_double_range [OF b(1) t] b(1)
    by (simp add: get_delivery_confidence_def Let_def rounds_to_at_most_1_5_exact [OF b]
        rounds_to_at_most_2_0_exact [OF b])
next
  assume "0 < base_days \<and>
    double_overflow \<le> \<bar>of_int total_calendar_days / of_int base_days :: rat\<bar>"
  then have b: "0 < base_days"
    and o: "double_overflow \<le> \<bar>of_int total_calendar_days / of_int base_days :: rat\<bar>"
    by blast+
  show "get_delivery_confidence base_days total_calendar_days c = ''medium''"
    unfolding get_delivery_confidence_def Let_def by (simp only: b o if_True)
qed (rule confidence_examples)+

theorem get_delivery_confidence_by_ratio_witness:
  "get_delivery_confidence 0 5 ''LBC'' = ''high'' \<and>
   (0::int) < 3 \<and> (3::int) < 2 ^ 52 \<and> \<bar>5::int\<bar> < 2 ^ 1023 \<and>
   \<not> (of_int 5 / of_int 3 :: rat) \<le> 3 / 2 \<and> (of_int 5 / of_int 3 :: rat) \<le> 2 \<and>
   get_delivery_confidence 3 5 ''LBC'' = ''medium'' \<and>
   double_overflow \<le> \<bar>of_int (2 ^ 1024) / of_int 1 :: rat\<bar> \<and>
   get_delivery_confidence 1 (2 ^ 1024) ''LBC'' = ''medium''"
proof -
  have big: "double_overflow \<le> \<bar>of_int (2 ^ 1024) / of_int 1 :: rat\<bar>"
    by (simp add: double_overflow_def)
  have "get_delivery_confidence 0 5 ''LBC'' = ''high''"
    using get_delivery_confidence_by_ratio [of 0 5 "''LBC''"] by simp
  moreover have "get_delivery_confidence 3 5 ''LBC'' = ''medium''"
    using get_delivery_confidence_by_ratio [of 3 5 "''LBC''"] by simp
  moreover have "get_delivery_confidence 1 (2 ^ 1024) ''LBC'' = ''medium''"
    using get_delivery_confidence_by_ratio [of 1 "2 ^ 1024" "''LBC''"] big by simp
  ultimately show ?thesis using big by simp
qed

section \<open>Claims about the configuration cache\<close>

lemma example_call_refreshes:
  "fst (get_config_locked t initial_config_cache force_refresh) = None"
  by (simp add: get_config_locked_None_iff initial_config_cache_def)



text \<open>
  C6. When a call refreshes and the fetch, the parse or the validation fails, the call
  makes its one fetch, clears the flag and changes nothing else in the state; it
  returns the previous snapshot when there is one, and raises the failure otherwise.
\<close>

theorem failed_refresh_returns_stale_or_raises:
  assumes "fst (get_config_locked (time_now env) s force_refresh) = None"
    and "fetched_config env = Inl e"
  shows "get_config env s force_refresh =
           ((case cache s of Some stale \<Rightarrow> Inr (Some stale) | None \<Rightarrow> Inl e), 1,
            s\<lparr>fetch_in_progress := False\<rparr>) \<and>
         \<not> fetch_in_progress (snd (snd (get_config env s force_refresh)))"
  using get_config_refresh [OF assms(1)] assms(2) by simp

theorem failed_refresh_returns_stale_or_raises_witness:
  "fst (get_config_locked (time_now (failing_env 2000))
          (initial_config_cache\<lparr>cache := Some example_config, cache_time := Some 1000\<rparr>) False)
     = None \<and>
   fetched_config (failing_env 2000) = Inl FetchError \<and>
   get_config (failing_env 2000)
     (initial_config_cache\<lparr>cache := Some example_config, cache_time := Some 1000\<rparr>) False
     = (Inr (Some example_config), 1,
        initial_config_cache\<lparr>cache := Some example_config, cache_time := Some 1000\<rparr>) \<and>
   get_config (failing_env 2000) initial_config_cache False
     = (Inl FetchError, 1, initial_config_cache)"
proof -
  let ?s = "initial_config_cache\<lparr>cache := Some example_config, cache_time := Some 1000\<rparr>"
  have r: "fst (get_config_locked (time_now (failing_env 2000)) ?s False) = None"
    by (simp add: get_config_locked_None_iff initial_config_cache_def failing_env_def
        example_env_def)
  have f: "fetched_config (failing_env 2000) = Inl FetchError"
    by (simp add: fetched_config_def failing_env_def example_env_def)
  have "get_config (failing_env 2000) ?s False = (Inr (Some example_config), 1, ?s)"
    using failed_refresh_returns_stale_or_raises [OF r f]
    by (simp add: initial_config_cache_def)
  moreover have "get_config (failing_env 2000) initial_config_cache False
     = (Inl FetchError, 1, initial_config_cache)"
    using failed_refresh_returns_stale_or_raises [OF example_call_refreshes f]
    by (simp add: initial_config_cache_def)
  ultimately show ?thesis using r f by blast
qed

section \<open>Claims about the estimate tool\<close>









end
